theory Spec2Isabelle
  imports Complex_Main "HOL-Library.Word" "HOL-Library.Signed_Division" "HOL-Library.AList" "HOL-Library.Log_Nat"
begin

unbundle bit_operations_syntax

section \<open>Errors\<close>

text \<open>
  The Python exceptions that the modelled code can raise. A function that may raise
  returns \<open>error + 'a\<close>, with \<open>Inl\<close> for the exception.
\<close>

datatype error =
    ValueError | StructError | IndexError | ZeroDivisionError | OverflowError
  | TypeError | AttributeError

section \<open>The encoder: \<open>encode_dfpwm\<close> of \<open>encode_song.py\<close>\<close>

text \<open>
  The local variables of \<open>encode_dfpwm\<close>. \<open>charge\<close>, \<open>strength\<close> and
  \<open>current_byte\<close> are Python integers (\<open>int\<close>); \<open>bit_idx\<close> only counts up from 0 and
  is reset to 0, so it is a \<open>nat\<close>; \<open>out_bytes\<close> is the bytearray, the list of the
  values appended so far.
\<close>

record encoder =
  charge :: int
  strength :: int
  previous_bit :: bool
  out_bytes :: "int list"
  current_byte :: int
  bit_idx :: nat

definition init_encoder :: encoder where
  "init_encoder =
     \<lparr>charge = 0, strength = 0, previous_bit = False,
      out_bytes = [], current_byte = 0, bit_idx = 0\<rparr>"

text \<open>\<open>bytearray.append\<close> raises ValueError unless the value is in \<open>range(0, 256)\<close>.\<close>

definition bytearray_append :: "int list \<Rightarrow> int \<Rightarrow> error + int list" where
  "bytearray_append bs b =
     (if 0 \<le> b \<and> b < 256 then Inr (bs @ [b]) else Inl ValueError)"

text \<open>
  The body of the \<open>for\<close> loop, lines 24 to 62, statement by statement. The value
  \<open>step\<close> of line 37 is computed and never read.
\<close>

definition encode_sample :: "encoder \<Rightarrow> int \<Rightarrow> error + encoder" where
  "encode_sample s sample =
     (let bit = (sample > charge s);
          strength1 = (if bit = previous_bit s then strength s + 1 else strength s - 1);
          strength2 = (if strength1 < 0 then 0 else strength1);
          strength3 = (if strength2 > 63 then 63 else strength2);
          step = push_bit 2 strength3 + (if strength3 < 50 then 1 else 0);
          change = push_bit 2 strength3 + 2;
          charge1 = (if bit then charge s + change else charge s - change);
          charge2 = (if charge1 > 127 then 127 else charge1);
          charge3 = (if charge2 < - 128 then - 128 else charge2);
          current_byte1 =
            (if bit then current_byte s OR push_bit (bit_idx s) 1 else current_byte s);
          bit_idx1 = bit_idx s + 1
      in if bit_idx1 = 8 then
           (case bytearray_append (out_bytes s) current_byte1 of
              Inl e \<Rightarrow> Inl e
            | Inr bs \<Rightarrow>
                Inr \<lparr>charge = charge3, strength = strength3, previous_bit = bit,
                     out_bytes = bs, current_byte = 0, bit_idx = 0\<rparr>)
         else
           Inr \<lparr>charge = charge3, strength = strength3, previous_bit = bit,
                out_bytes = out_bytes s, current_byte = current_byte1,
                bit_idx = bit_idx1\<rparr>)"

text \<open>The \<open>for sample in pcm_samples\<close> loop: an exception ends it.\<close>

fun encode_loop :: "encoder \<Rightarrow> int list \<Rightarrow> error + encoder" where
  "encode_loop s [] = Inr s"
| "encode_loop s (sample # rest) =
     (case encode_sample s sample of
        Inl e \<Rightarrow> Inl e
      | Inr s' \<Rightarrow> encode_loop s' rest)"

text \<open>The whole function: the loop, then the flush of a partial last byte (lines 64, 65).\<close>

definition encode_dfpwm :: "int list \<Rightarrow> error + int list" where
  "encode_dfpwm pcm_samples =
     (case encode_loop init_encoder pcm_samples of
        Inl e \<Rightarrow> Inl e
      | Inr s \<Rightarrow>
          if bit_idx s > 0 then bytearray_append (out_bytes s) (current_byte s)
          else Inr (out_bytes s))"

subsection \<open>The encoder as the specification words it\<close>

text \<open>
  The per-sample step of the DeltaEncoder, following the six items of the specification:
  the state is \<open>(charge, strength, previousBit)\<close>, the result is the new state and the
  emitted bit.
\<close>

definition clamp :: "int \<Rightarrow> int \<Rightarrow> int \<Rightarrow> int" where
  "clamp lo hi x = (if x < lo then lo else if x > hi then hi else x)"

type_synonym delta_state = "int \<times> int \<times> bool"

definition delta_init :: delta_state where
  "delta_init = (0, 0, False)"

fun delta_step :: "delta_state \<Rightarrow> int \<Rightarrow> delta_state \<times> bool" where
  "delta_step (c, st, pb) sample =
     (let bit = (sample > c);
          st' = clamp 0 63 (if bit = pb then st + 1 else st - 1);
          change = push_bit 2 st' + 2;
          c' = clamp (- 128) 127 (if bit then c + change else c - change)
      in ((c', st', bit), bit))"

text \<open>Running the step over a sample sequence: the final state and the bits, in order.\<close>

fun delta_run :: "delta_state \<Rightarrow> int list \<Rightarrow> delta_state \<times> bool list" where
  "delta_run d [] = (d, [])"
| "delta_run d (sample # rest) =
     (let (d', bit) = delta_step d sample;
          (d'', bits) = delta_run d' rest
      in (d'', bit # bits))"

definition delta_bits :: "int list \<Rightarrow> bool list" where
  "delta_bits samples = snd (delta_run delta_init samples)"

text \<open>
  Reading bits back LSB-first: the first \<open>n\<close> bits of one byte, and all 8 bits of every
  byte of a sequence.
\<close>

definition byte_bits :: "nat \<Rightarrow> int \<Rightarrow> bool list" where
  "byte_bits n b = map (bit b) [0..<n]"

definition unpack_bits :: "int list \<Rightarrow> bool list" where
  "unpack_bits bs = concat (map (byte_bits 8) bs)"

text \<open>The bits that an encoder state holds: the full bytes, then the byte in progress.\<close>

definition held_bits :: "encoder \<Rightarrow> bool list" where
  "held_bits s = unpack_bits (out_bytes s) @ byte_bits (bit_idx s) (current_byte s)"

definition delta_of :: "encoder \<Rightarrow> delta_state" where
  "delta_of s = (charge s, strength s, previous_bit s)"

text \<open>
  What the packing variables satisfy between two iterations: the byte in progress has only
  its low \<open>bit_idx\<close> bits set, and fewer than 8 bits are pending.
\<close>

definition pack_inv :: "encoder \<Rightarrow> bool" where
  "pack_inv s = (0 \<le> current_byte s \<and> current_byte s < 2 ^ bit_idx s \<and> bit_idx s < 8)"

definition in_domain :: "encoder \<Rightarrow> bool" where
  "in_domain s =
     (- 128 \<le> charge s \<and> charge s \<le> 127 \<and> 0 \<le> strength s \<and> strength s \<le> 63)"

subsection \<open>The encoder without the unused \<open>step\<close>\<close>

text \<open>
  The same function with line 37 deleted: only \<open>change = (strength << 2) + 2\<close> is
  computed. It is compared with \<open>encode_dfpwm\<close> below.
\<close>

definition encode_sample_change_only :: "encoder \<Rightarrow> int \<Rightarrow> error + encoder" where
  "encode_sample_change_only s sample =
     (let bit = (sample > charge s);
          strength1 = (if bit = previous_bit s then strength s + 1 else strength s - 1);
          strength2 = (if strength1 < 0 then 0 else strength1);
          strength3 = (if strength2 > 63 then 63 else strength2);
          change = push_bit 2 strength3 + 2;
          charge1 = (if bit then charge s + change else charge s - change);
          charge2 = (if charge1 > 127 then 127 else charge1);
          charge3 = (if charge2 < - 128 then - 128 else charge2);
          current_byte1 =
            (if bit then current_byte s OR push_bit (bit_idx s) 1 else current_byte s);
          bit_idx1 = bit_idx s + 1
      in if bit_idx1 = 8 then
           (case bytearray_append (out_bytes s) current_byte1 of
              Inl e \<Rightarrow> Inl e
            | Inr bs \<Rightarrow>
                Inr \<lparr>charge = charge3, strength = strength3, previous_bit = bit,
                     out_bytes = bs, current_byte = 0, bit_idx = 0\<rparr>)
         else
           Inr \<lparr>charge = charge3, strength = strength3, previous_bit = bit,
                out_bytes = out_bytes s, current_byte = current_byte1,
                bit_idx = bit_idx1\<rparr>)"

fun encode_loop_change_only :: "encoder \<Rightarrow> int list \<Rightarrow> error + encoder" where
  "encode_loop_change_only s [] = Inr s"
| "encode_loop_change_only s (sample # rest) =
     (case encode_sample_change_only s sample of
        Inl e \<Rightarrow> Inl e
      | Inr s' \<Rightarrow> encode_loop_change_only s' rest)"

definition encode_dfpwm_change_only :: "int list \<Rightarrow> error + int list" where
  "encode_dfpwm_change_only pcm_samples =
     (case encode_loop_change_only init_encoder pcm_samples of
        Inl e \<Rightarrow> Inl e
      | Inr s \<Rightarrow>
          if bit_idx s > 0 then bytearray_append (out_bytes s) (current_byte s)
          else Inr (out_bytes s))"

section \<open>Sample extraction: \<open>main\<close> of \<open>encode_song.py\<close>, \<open>process_file\<close> of \<open>convert_mp3.py\<close>\<close>

text \<open>
  The frames of a WAV file are Python \<open>bytes\<close>: a list of 8-bit values.
  \<open>struct.unpack_from('<h', frames, idx)\<close> reads the two bytes at \<open>idx\<close> as a
  little-endian signed 16-bit integer and raises \<open>struct.error\<close> when fewer than two
  bytes are left.
\<close>

type_synonym bytes = "8 word list"

definition unpack_from_h :: "bytes \<Rightarrow> nat \<Rightarrow> error + int" where
  "unpack_from_h frames idx =
     (if idx + 2 \<le> length frames then
        (let u = uint (frames ! idx) + 256 * uint (frames ! (idx + 1))
         in Inr (if u \<ge> 32768 then u - 65536 else u))
      else Inl StructError)"

text \<open>
  The helper \<open>get_sample\<close> of \<open>main\<close> (lines 102 to 112), a closure over \<open>frames\<close>
  and \<open>sampwidth\<close>. \<open>//\<close> is Python's floor division, which is \<open>div\<close> on \<open>int\<close>.
\<close>

definition get_sample :: "bytes \<Rightarrow> nat \<Rightarrow> nat \<Rightarrow> error + int" where
  "get_sample frames sampwidth idx =
     (if sampwidth = 1 then
        (if idx < length frames then Inr (uint (frames ! idx) - 128) else Inl IndexError)
      else if sampwidth = 2 then
        (case unpack_from_h frames idx of
           Inl e \<Rightarrow> Inl e
         | Inr val \<Rightarrow> Inr (val div 256))
      else Inr 0)"

text \<open>
  One frame (lines 117 to 121): the first channel's sample, and for more than one channel
  the sum over the channels, floor-divided by the number of channels.
\<close>

fun add_channels :: "bytes \<Rightarrow> nat \<Rightarrow> nat \<Rightarrow> int \<Rightarrow> nat list \<Rightarrow> error + int" where
  "add_channels frames sampwidth i val [] = Inr val"
| "add_channels frames sampwidth i val (ch # chs) =
     (case get_sample frames sampwidth (i + ch * sampwidth) of
        Inl e \<Rightarrow> Inl e
      | Inr v \<Rightarrow> add_channels frames sampwidth i (val + v) chs)"

definition frame_sample :: "bytes \<Rightarrow> nat \<Rightarrow> nat \<Rightarrow> nat \<Rightarrow> error + int" where
  "frame_sample frames sampwidth nchannels i =
     (case get_sample frames sampwidth i of
        Inl e \<Rightarrow> Inl e
      | Inr val \<Rightarrow>
          if nchannels > 1 then
            (case add_channels frames sampwidth i val [1..<nchannels] of
               Inl e \<Rightarrow> Inl e
             | Inr val' \<Rightarrow> Inr (val' div int nchannels))
          else Inr val)"

text \<open>
  The loop \<open>for i in range(0, len(frames), step)\<close> of line 115, over the list of the
  values of \<open>i\<close>. \<open>range\<close> raises ValueError for a step of 0.
\<close>

fun collect_samples :: "bytes \<Rightarrow> nat \<Rightarrow> nat \<Rightarrow> int list \<Rightarrow> nat list \<Rightarrow> error + int list" where
  "collect_samples frames sampwidth nchannels samples [] = Inr samples"
| "collect_samples frames sampwidth nchannels samples (i # is) =
     (case frame_sample frames sampwidth nchannels i of
        Inl e \<Rightarrow> Inl e
      | Inr val \<Rightarrow> collect_samples frames sampwidth nchannels (samples @ [val]) is)"

definition range_step :: "nat \<Rightarrow> nat \<Rightarrow> nat list" where
  "range_step n step = map (\<lambda>k. k * step) [0..<(n + step - 1) div step]"

definition read_samples :: "bytes \<Rightarrow> nat \<Rightarrow> nat \<Rightarrow> error + int list" where
  "read_samples frames sampwidth nchannels =
     (let step = sampwidth * nchannels
      in if step = 0 then Inl ValueError
         else collect_samples frames sampwidth nchannels [] (range_step (length frames) step))"

text \<open>
  The conversion loop of \<open>process_file\<close> in \<open>convert_mp3.py\<close> (lines 66 to 71): 16-bit
  values at the even offsets, each floor-divided by 256.
\<close>

fun convert_samples :: "bytes \<Rightarrow> int list \<Rightarrow> nat list \<Rightarrow> error + int list" where
  "convert_samples frames samples [] = Inr samples"
| "convert_samples frames samples (i # is) =
     (case unpack_from_h frames (i * 2) of
        Inl e \<Rightarrow> Inl e
      | Inr val \<Rightarrow> convert_samples frames (samples @ [val div 256]) is)"

definition process_file_samples :: "bytes \<Rightarrow> error + int list" where
  "process_file_samples frames =
     (let total_samples = length frames div 2
      in convert_samples frames [] [0..<total_samples])"

text \<open>
  Division that truncates, rounding the quotient toward zero, for comparison with what
  the code does.
\<close>

definition trunc_div :: "int \<Rightarrow> int \<Rightarrow> int" where
  "trunc_div a b = a sdiv b"

section \<open>The catalog: \<open>update_manifest\<close> of \<open>convert_mp3.py\<close>\<close>

text \<open>
  A JSON value as \<open>json.load\<close> returns it. The code never inspects a number, so the type
  of numbers is a parameter. An object is a Python \<open>dict\<close>, which keeps the insertion
  order of its keys: an association list, read with \<open>map_of\<close>.
\<close>

datatype 'n json =
    JNull | JBool bool | JNum 'n | JStr string
  | JArr "'n json list" | JObj "(string \<times> 'n json) list"

text \<open>
  The file \<open>manifest.json\<close>: absent, present with a content that \<open>json.load\<close> rejects,
  or present with the JSON value that \<open>json.load\<close> returns. \<open>json.dump\<close> followed by
  \<open>json.load\<close> gives back the value written, so a write is modelled by the value
  written. The store also counts the times the file has been opened for writing.
\<close>

datatype 'n manifest_file = Missing | Unparsable | Holds "'n json"

record 'n store =
  manifest :: "'n manifest_file"
  writes :: nat

datatype outcome = Updated | AlreadyPresent

text \<open>\<open>base_name.rsplit('.', 1)[0]\<close>: the part before the last dot, or all of it.\<close>

definition rsplit_dot_head :: "string \<Rightarrow> string" where
  "rsplit_dot_head s =
     (if CHR ''.'' \<in> set s then rev (tl (dropWhile (\<lambda>c. c \<noteq> CHR ''.'') (rev s))) else s)"

text \<open>\<open>output_path.replace("\\", "/")\<close>: every backslash (character 0x5C) becomes a slash.\<close>

definition normalize_path :: "string \<Rightarrow> string" where
  "normalize_path output_path = map (\<lambda>c. if c = CHR 0x5C then CHR ''/'' else c) output_path"

text \<open>
  Lines 98 to 105: the loaded value, or \<open>{"songs": []}\<close> when the file is absent or
  \<open>json.load\<close> raises (the bare \<open>except\<close>).
\<close>

definition load_manifest :: "'n manifest_file \<Rightarrow> 'n json" where
  "load_manifest f =
     (case f of
        Missing \<Rightarrow> JObj [(''songs'', JArr [])]
      | Unparsable \<Rightarrow> JObj [(''songs'', JArr [])]
      | Holds v \<Rightarrow> v)"

text \<open>
  Lines 107, 108 and the read \<open>data["songs"]\<close>: the dict after the statement and the
  value read. For a dict the key is added at the end when it is missing. For every other
  value Python raises TypeError, at the membership test (a number, a boolean, null), at
  the assignment or at the read (a list, a string).
\<close>

fun ensure_songs :: "'n json \<Rightarrow> error + (string \<times> 'n json) list \<times> 'n json" where
  "ensure_songs (JObj kvs) =
     Inr (case map_of kvs ''songs'' of
            None \<Rightarrow> (kvs @ [(''songs'', JArr [])], JArr [])
          | Some v \<Rightarrow> (kvs, v))"
| "ensure_songs _ = Inl TypeError"

text \<open>
  \<open>song.get("file") == file_entry\<close>: only a dict has \<open>get\<close> (AttributeError
  otherwise), and only a string can be equal to \<open>file_entry\<close>.
\<close>

fun song_file_is :: "string \<Rightarrow> 'n json \<Rightarrow> error + bool" where
  "song_file_is file_entry (JObj kvs) = Inr (map_of kvs ''file'' = Some (JStr file_entry))"
| "song_file_is file_entry _ = Inl AttributeError"

text \<open>The loop of lines 112 to 115, with its \<open>break\<close> at the first match.\<close>

fun find_song :: "string \<Rightarrow> 'n json list \<Rightarrow> error + bool" where
  "find_song file_entry [] = Inr False"
| "find_song file_entry (song # rest) =
     (case song_file_is file_entry song of
        Inl e \<Rightarrow> Inl e
      | Inr found \<Rightarrow> if found then Inr True else find_song file_entry rest)"

text \<open>
  Iterating over \<open>data["songs"]\<close> and, when nothing matches, reaching \<open>.append\<close>. A
  list is scanned. A dict or a string iterates over strings, which have no \<open>get\<close>, and
  when empty has no \<open>append\<close>: AttributeError either way. A number, a boolean or null
  is not iterable: TypeError.
\<close>

fun scan_songs :: "string \<Rightarrow> 'n json \<Rightarrow> error + bool \<times> 'n json list" where
  "scan_songs file_entry (JArr songs) =
     (case find_song file_entry songs of
        Inl e \<Rightarrow> Inl e
      | Inr found \<Rightarrow> Inr (found, songs))"
| "scan_songs file_entry (JObj kvs) = Inl AttributeError"
| "scan_songs file_entry (JStr s) = Inl AttributeError"
| "scan_songs file_entry _ = Inl TypeError"

definition new_entry :: "string \<Rightarrow> string \<Rightarrow> 'n json" where
  "new_entry title file_entry = JObj [(''title'', JStr title), (''file'', JStr file_entry)]"

text \<open>
  \<open>update_manifest\<close>. \<open>os.path.basename\<close> depends on the platform's path module and is
  a parameter.
\<close>

definition update_manifest ::
  "(string \<Rightarrow> string) \<Rightarrow> string \<Rightarrow> string \<Rightarrow> 'n store \<Rightarrow> error + 'n store \<times> outcome" where
  "update_manifest basename input_title_path output_path st =
     (let base_name = basename input_title_path;
          title = rsplit_dot_head base_name;
          file_entry = normalize_path output_path;
          data = load_manifest (manifest st)
      in case ensure_songs data of
           Inl e \<Rightarrow> Inl e
         | Inr (kvs, songs_value) \<Rightarrow>
             (case scan_songs file_entry songs_value of
                Inl e \<Rightarrow> Inl e
              | Inr (found, songs) \<Rightarrow>
                  if \<not> found then
                    Inr (\<lparr>manifest =
                            Holds (JObj (AList.update ''songs''
                              (JArr (songs @ [new_entry title file_entry])) kvs)),
                          writes = writes st + 1\<rparr>, Updated)
                  else Inr (st, AlreadyPresent)))"

text \<open>
  A catalog as the specification's data model has it: the file is absent or unreadable
  (the empty catalog), or holds an object whose \<open>songs\<close>, when present, is a list of
  objects.
\<close>

fun is_object :: "'n json \<Rightarrow> bool" where
  "is_object (JObj kvs) = True"
| "is_object _ = False"

fun is_catalog :: "'n manifest_file \<Rightarrow> bool" where
  "is_catalog Missing = True"
| "is_catalog Unparsable = True"
| "is_catalog (Holds (JObj kvs)) =
     (case map_of kvs ''songs'' of
        None \<Rightarrow> True
      | Some (JArr songs) \<Rightarrow> list_all is_object songs
      | Some _ \<Rightarrow> False)"
| "is_catalog (Holds _) = False"

text \<open>The entries of the catalog in a file, and those of them whose \<open>file\<close> is a given path.\<close>

fun songs_of :: "'n json \<Rightarrow> 'n json list" where
  "songs_of (JObj kvs) = (case map_of kvs ''songs'' of Some (JArr songs) \<Rightarrow> songs | _ \<Rightarrow> [])"
| "songs_of _ = []"

definition catalog_songs :: "'n manifest_file \<Rightarrow> 'n json list" where
  "catalog_songs f = songs_of (load_manifest f)"

definition entries_with_file :: "string \<Rightarrow> 'n json list \<Rightarrow> 'n json list" where
  "entries_with_file file_entry songs =
     filter (\<lambda>song. song_file_is file_entry song = Inr True) songs"

text \<open>The members of an object other than \<open>songs\<close>, in order.\<close>

fun other_members :: "'n json \<Rightarrow> (string \<times> 'n json) list" where
  "other_members (JObj kvs) = filter (\<lambda>kv. fst kv \<noteq> ''songs'') kvs"
| "other_members _ = []"

section \<open>The resampler: lines 127 to 135 of \<open>main\<close> in \<open>encode_song.py\<close>\<close>

subsection \<open>Python floats\<close>

text \<open>
  A Python \<open>float\<close> is an IEEE 754 binary64 value: a finite value, which is a rational
  number, an infinity or a NaN. The two zeros are not told apart: the code only adds,
  compares and truncates, which do not distinguish them.
\<close>

datatype pyfloat = Finite rat | PosInf | NegInf | NaN

text \<open>
  Rounding to the nearest integer, a tie going to the even one.
\<close>

definition round_half_even :: "rat \<Rightarrow> int" where
  "round_half_even y =
     (let f = \<lfloor>y\<rfloor>; d = y - of_int f
      in if d < 1 / 2 then f
         else if d > 1 / 2 then f + 1
         else if even f then f else f + 1)"

text \<open>
  For a positive rational \<open>x\<close>, the integer \<open>e\<close> with \<open>2\<^sup>e \<le> x < 2\<^sup>e\<^sup>+\<^sup>1\<close>, computed from the
  bit lengths of numerator and denominator.
\<close>

definition binary_exponent :: "rat \<Rightarrow> int" where
  "binary_exponent x =
     (let (p, q) = quotient_of x; d = bitlen p - bitlen q
      in if 2 powi d \<le> x then d else d - 1)"

text \<open>
  Rounding a rational to binary64, to nearest with ties to even: 53 significant bits, the
  exponent not below -1022 (smaller values are subnormal, multiples of \<open>2\<^sup>-\<^sup>1\<^sup>0\<^sup>7\<^sup>4\<close>). The
  result is the rounded value before the range check.
\<close>

definition round_binary64 :: "rat \<Rightarrow> rat" where
  "round_binary64 x =
     (if x = 0 then 0
      else
        (let a = \<bar>x\<bar>;
             e = max (binary_exponent a) (- 1022);
             q = 2 powi (e - 52)
         in sgn x * of_int (round_half_even (a / q)) * q))"

text \<open>The float of an exact result: a rounded value of magnitude \<open>2\<^sup>1\<^sup>0\<^sup>2\<^sup>4\<close> or more overflows.\<close>

definition to_float :: "rat \<Rightarrow> pyfloat" where
  "to_float x =
     (let r = round_binary64 x
      in if r \<ge> 2 ^ 1024 then PosInf
         else if r \<le> - (2 ^ 1024) then NegInf
         else Finite r)"

text \<open>
  \<open>a / b\<close> on two Python integers: the correctly rounded quotient; ZeroDivisionError for
  a zero divisor, OverflowError when the quotient is too large for a float.
\<close>

definition true_divide :: "int \<Rightarrow> int \<Rightarrow> error + pyfloat" where
  "true_divide a b =
     (if b = 0 then Inl ZeroDivisionError
      else
        (case to_float (of_int a / of_int b) of
           Finite r \<Rightarrow> Inr (Finite r)
         | _ \<Rightarrow> Inl OverflowError))"

text \<open>\<open>x + y\<close> on two floats.\<close>

fun float_add :: "pyfloat \<Rightarrow> pyfloat \<Rightarrow> pyfloat" where
  "float_add (Finite a) (Finite b) = to_float (a + b)"
| "float_add NaN _ = NaN"
| "float_add _ NaN = NaN"
| "float_add PosInf NegInf = NaN"
| "float_add NegInf PosInf = NaN"
| "float_add PosInf _ = PosInf"
| "float_add _ PosInf = PosInf"
| "float_add NegInf _ = NegInf"
| "float_add _ NegInf = NegInf"

text \<open>\<open>x < n\<close> for a float and an integer: Python compares the exact values.\<close>

fun float_less_int :: "pyfloat \<Rightarrow> int \<Rightarrow> bool" where
  "float_less_int (Finite a) n = (a < of_int n)"
| "float_less_int PosInf n = False"
| "float_less_int NegInf n = True"
| "float_less_int NaN n = False"

text \<open>
  \<open>int(x)\<close>: truncation toward zero; OverflowError for an infinity, ValueError for a NaN.
\<close>

fun float_to_int :: "pyfloat \<Rightarrow> error + int" where
  "float_to_int (Finite a) = Inr (if a \<ge> 0 then \<lfloor>a\<rfloor> else \<lceil>a\<rceil>)"
| "float_to_int PosInf = Inl OverflowError"
| "float_to_int NegInf = Inl OverflowError"
| "float_to_int NaN = Inl ValueError"

text \<open>
  \<open>xs[i]\<close> on a list of length \<open>n\<close>: the element at \<open>i\<close> for \<open>0 \<le> i < n\<close>, the
  element at \<open>n + i\<close> for \<open>-n \<le> i < 0\<close>, and IndexError for every other index.
\<close>

definition list_get :: "'a list \<Rightarrow> int \<Rightarrow> error + 'a" where
  "list_get xs i =
     (if 0 \<le> i \<and> i < int (length xs) then Inr (xs ! nat i)
      else if i < 0 \<and> - int (length xs) \<le> i then Inr (xs ! nat (int (length xs) + i))
      else Inl IndexError)"

subsection \<open>The loop\<close>

text \<open>
  The \<open>while idx < len(samples)\<close> loop. Nothing bounds the number of its iterations
  (the cursor need not advance), so it is a partial function: \<open>None\<close> is a loop that
  never ends.
\<close>

partial_function (option) resample_loop ::
  "int list \<Rightarrow> pyfloat \<Rightarrow> int list \<Rightarrow> pyfloat \<Rightarrow> (error + int list) option" where
  "resample_loop samples ratio new_samples idx =
     (if float_less_int idx (int (length samples)) then
        (case float_to_int idx of
           Inl e \<Rightarrow> Some (Inl e)
         | Inr i \<Rightarrow>
             (case list_get samples i of
                Inl e \<Rightarrow> Some (Inl e)
              | Inr v \<Rightarrow> resample_loop samples ratio (new_samples @ [v]) (float_add idx ratio)))
      else Some (Inr new_samples))"

declare resample_loop.simps [code]

definition resample :: "int list \<Rightarrow> int \<Rightarrow> int \<Rightarrow> (error + int list) option" where
  "resample samples framerate target_rate =
     (if target_rate \<noteq> framerate then
        (case true_divide framerate target_rate of
           Inl e \<Rightarrow> Some (Inl e)
         | Inr ratio \<Rightarrow> resample_loop samples ratio [] (Finite 0))
      else Some (Inr samples))"

subsection \<open>Steps 2 to 4 of \<open>main\<close>\<close>

text \<open>
  From the frames of the WAV file to the encoded bytes: sample extraction, resampling,
  encoding.
\<close>

definition transcode ::
  "bytes \<Rightarrow> nat \<Rightarrow> nat \<Rightarrow> int \<Rightarrow> int \<Rightarrow> (error + int list) option" where
  "transcode frames sampwidth nchannels framerate target_rate =
     (case read_samples frames sampwidth nchannels of
        Inl e \<Rightarrow> Some (Inl e)
      | Inr samples \<Rightarrow>
          (case resample samples framerate target_rate of
             None \<Rightarrow> None
           | Some (Inl e) \<Rightarrow> Some (Inl e)
           | Some (Inr new_samples) \<Rightarrow> Some (encode_dfpwm new_samples)))"

section \<open>Properties of the encoder\<close>

subsection \<open>Bits of the byte in progress\<close>

lemma or_bit_bound:
  fixes a :: int
  assumes "0 \<le> a" "a < 2 ^ n"
  shows "0 \<le> a OR push_bit n 1" "a OR push_bit n 1 < 2 ^ Suc n"
proof -
  show "0 \<le> a OR push_bit n 1" using assms by simp
  have "a < 2 ^ Suc n" using assms by simp
  moreover have "(push_bit n 1 :: int) < 2 ^ Suc n" by simp
  ultimately show "a OR push_bit n 1 < 2 ^ Suc n"
    using assms(1) by (intro OR_upper) auto
qed

lemma byte_bits_Suc: "byte_bits (Suc n) b = byte_bits n b @ [bit b n]"
  by (simp add: byte_bits_def)

lemma byte_bits_cong:
  "(\<And>i. i < n \<Longrightarrow> bit a i = bit b i) \<Longrightarrow> byte_bits n a = byte_bits n b"
  by (simp add: byte_bits_def)

lemma bit_above:
  fixes a :: int
  assumes "0 \<le> a" "a < 2 ^ n" "n \<le> i"
  shows "\<not> bit a i"
proof -
  have "(2::int) ^ n \<le> 2 ^ i" using assms(3) by simp
  then have "a < 2 ^ i" using assms(2) by linarith
  then have "a div 2 ^ i = 0" using assms(1) by simp
  then show ?thesis by (simp add: bit_iff_odd)
qed

lemma byte_bits_or:
  fixes a :: int
  assumes "0 \<le> a" "a < 2 ^ n"
  shows "byte_bits (Suc n) (a OR push_bit n 1) = byte_bits n a @ [True]"
  using assms by (auto simp: byte_bits_Suc bit_or_iff bit_exp_iff intro!: byte_bits_cong)

lemma byte_bits_keep:
  fixes a :: int
  assumes "0 \<le> a" "a < 2 ^ n"
  shows "byte_bits (Suc n) a = byte_bits n a @ [False]"
  using assms bit_above[of a n n] by (auto simp: byte_bits_Suc)

lemma unpack_bits_snoc: "unpack_bits (bs @ [b]) = unpack_bits bs @ byte_bits 8 b"
  by (simp add: unpack_bits_def)

lemma byte_bits_0: "byte_bits 0 b = []"
  by (simp add: byte_bits_def)

lemma length_byte_bits: "length (byte_bits n b) = n"
  by (simp add: byte_bits_def)

lemma length_unpack_bits: "length (unpack_bits bs) = 8 * length bs"
  by (induction bs) (simp_all add: unpack_bits_def length_byte_bits)

lemma byte_bits_pad:
  fixes a :: int
  assumes "0 \<le> a" "a < 2 ^ n"
  shows "byte_bits (n + k) a = byte_bits n a @ replicate k False"
proof (induction k)
  case 0
  show ?case by simp
next
  case (Suc k)
  have "\<not> bit a (n + k)" using assms by (intro bit_above[of a n]) simp_all
  with Suc show ?case
    by (simp add: byte_bits_Suc replicate_append_same)
qed

lemma delta_agree:
  "delta_step (delta_of s) x =
     (let bit = (x > charge s);
          strength1 = (if bit = previous_bit s then strength s + 1 else strength s - 1);
          strength2 = (if strength1 < 0 then 0 else strength1);
          strength3 = (if strength2 > 63 then 63 else strength2);
          change = push_bit 2 strength3 + 2;
          charge1 = (if bit then charge s + change else charge s - change);
          charge2 = (if charge1 > 127 then 127 else charge1);
          charge3 = (if charge2 < - 128 then - 128 else charge2)
      in ((charge3, strength3, bit), bit))"
  by (simp add: delta_of_def clamp_def Let_def)

lemma encode_sample_packs:
  assumes "pack_inv s"
  shows "\<exists>s'. encode_sample s x = Inr s' \<and> pack_inv s'
           \<and> delta_of s' = fst (delta_step (delta_of s) x)
           \<and> held_bits s' = held_bits s @ [snd (delta_step (delta_of s) x)]"
proof -
  let ?bit = "x > charge s"
  let ?cb = "if ?bit then current_byte s OR push_bit (bit_idx s) 1 else current_byte s"
  from assms have a: "0 \<le> current_byte s" "current_byte s < 2 ^ bit_idx s" "bit_idx s < 8"
    by (simp_all add: pack_inv_def)
  have b: "0 \<le> ?cb" "?cb < 2 ^ Suc (bit_idx s)"
    using or_bit_bound[OF a(1,2)] a(1,2) by (auto simp del: push_bit_of_1)
  have c: "byte_bits (Suc (bit_idx s)) ?cb = byte_bits (bit_idx s) (current_byte s) @ [?bit]"
    using byte_bits_or[OF a(1,2)] byte_bits_keep[OF a(1,2)] by simp
  show ?thesis
  proof (cases "bit_idx s = 7")
    case True
    with b have "?cb < 256" by simp
    with b(1) have app: "bytearray_append (out_bytes s) ?cb = Inr (out_bytes s @ [?cb])"
      by (simp add: bytearray_append_def)
    from c True have c8: "byte_bits 8 ?cb = byte_bits 7 (current_byte s) @ [?bit]"
      by simp
    show ?thesis
      unfolding delta_agree
      using True app c8
      by (simp add: encode_sample_def Let_def pack_inv_def delta_of_def held_bits_def
          unpack_bits_snoc byte_bits_0 del: push_bit_of_1)
  next
    case False
    with a(3) have lt: "Suc (bit_idx s) < 8" by simp
    show ?thesis
      unfolding delta_agree
      using False lt b c
      by (simp add: encode_sample_def Let_def pack_inv_def delta_of_def held_bits_def
          del: push_bit_of_1)
  qed
qed

lemma delta_step_in_domain:
  "fst (delta_step d x) = (c, st, b) \<Longrightarrow> - 128 \<le> c \<and> c \<le> 127 \<and> 0 \<le> st \<and> st \<le> 63"
  by (cases d) (auto simp: clamp_def Let_def split: if_splits)

lemma encode_sample_in_domain:
  assumes "encode_sample s x = Inr s'"
  shows "in_domain s'"
  using assms
  by (auto simp: encode_sample_def Let_def in_domain_def bytearray_append_def
      split: if_splits sum.splits)

lemma encode_loop_packs:
  assumes "pack_inv s"
  shows "\<exists>s'. encode_loop s xs = Inr s' \<and> pack_inv s'
           \<and> delta_of s' = fst (delta_run (delta_of s) xs)
           \<and> held_bits s' = held_bits s @ snd (delta_run (delta_of s) xs)"
  using assms
proof (induction xs arbitrary: s)
  case Nil
  then show ?case by simp
next
  case (Cons x xs)
  from encode_sample_packs[OF Cons.prems, of x] obtain s1 where
    s1: "encode_sample s x = Inr s1" "pack_inv s1"
        "delta_of s1 = fst (delta_step (delta_of s) x)"
        "held_bits s1 = held_bits s @ [snd (delta_step (delta_of s) x)]"
    by blast
  from Cons.IH[OF s1(2)] obtain s' where
    s': "encode_loop s1 xs = Inr s'" "pack_inv s'"
        "delta_of s' = fst (delta_run (delta_of s1) xs)"
        "held_bits s' = held_bits s1 @ snd (delta_run (delta_of s1) xs)"
    by blast
  show ?case
    using s1 s' by (simp add: split_beta Let_def)
qed

lemma length_delta_run: "length (snd (delta_run d xs)) = length xs"
  by (induction xs arbitrary: d) (simp_all add: split_beta Let_def)

lemma encode_loop_in_domain:
  assumes "in_domain s" "encode_loop s xs = Inr s'"
  shows "in_domain s'"
  using assms
proof (induction xs arbitrary: s)
  case Nil
  then show ?case by simp
next
  case (Cons x xs)
  then show ?case
    by (auto split: sum.splits dest: encode_sample_in_domain)
qed

lemma pack_inv_init: "pack_inv init_encoder"
  by (simp add: pack_inv_def init_encoder_def)

lemma in_domain_init: "in_domain init_encoder"
  by (simp add: in_domain_def init_encoder_def)

lemma held_bits_init: "held_bits init_encoder = []"
  by (simp add: held_bits_def init_encoder_def unpack_bits_def byte_bits_def)

lemma delta_of_init: "delta_of init_encoder = delta_init"
  by (simp add: delta_of_def init_encoder_def delta_init_def)

lemma encode_loop_init:
  "\<exists>s. encode_loop init_encoder xs = Inr s \<and> pack_inv s \<and> in_domain s
         \<and> delta_of s = fst (delta_run delta_init xs)
         \<and> held_bits s = delta_bits xs"
  using encode_loop_packs[OF pack_inv_init, of xs] encode_loop_in_domain[OF in_domain_init, of xs]
  by (auto simp: held_bits_init delta_of_init delta_bits_def)

lemma encode_dfpwm_unpack:
  "\<exists>bs. encode_dfpwm xs = Inr bs \<and> length bs = (length xs + 7) div 8
     \<and> unpack_bits bs = delta_bits xs @ replicate (8 * length bs - length xs) False"
proof -
  from encode_loop_init[of xs] obtain s where
    s: "encode_loop init_encoder xs = Inr s" "pack_inv s" "held_bits s = delta_bits xs"
    by blast
  have len: "8 * length (out_bytes s) + bit_idx s = length xs"
    using arg_cong[OF s(3), of length]
    by (simp add: held_bits_def length_unpack_bits length_byte_bits delta_bits_def
        length_delta_run)
  from s(2) have a: "0 \<le> current_byte s" "current_byte s < 2 ^ bit_idx s" "bit_idx s < 8"
    by (simp_all add: pack_inv_def)
  show ?thesis
  proof (cases "bit_idx s > 0")
    case False
    then show ?thesis
      using s len by (simp add: encode_dfpwm_def held_bits_def byte_bits_0)
  next
    case True
    have "(2::int) ^ bit_idx s \<le> 2 ^ 8"
      using a(3) by (intro power_increasing) simp_all
    then have "current_byte s < 256" using a(2) by simp
    then have app: "bytearray_append (out_bytes s) (current_byte s)
        = Inr (out_bytes s @ [current_byte s])"
      using a(1) by (simp add: bytearray_append_def)
    have "byte_bits (bit_idx s + (8 - bit_idx s)) (current_byte s)
        = byte_bits (bit_idx s) (current_byte s) @ replicate (8 - bit_idx s) False"
      using a(1,2) by (rule byte_bits_pad)
    then have pad: "byte_bits 8 (current_byte s)
        = byte_bits (bit_idx s) (current_byte s) @ replicate (8 - bit_idx s) False"
      using a(3) by simp
    have l1: "length (out_bytes s @ [current_byte s]) = (length xs + 7) div 8"
      using len a(3) True by simp
    have l2: "8 * length (out_bytes s @ [current_byte s]) - length xs = 8 - bit_idx s"
      using len a(3) by simp
    have "unpack_bits (out_bytes s @ [current_byte s])
        = delta_bits xs @ replicate (8 - bit_idx s) False"
      using s(3) pad by (simp add: unpack_bits_snoc held_bits_def)
    then show ?thesis
      using s(1) True app l1 l2 by (simp add: encode_dfpwm_def)
  qed
qed

subsection \<open>The claims about the encoder\<close>

text \<open>
  C1. For every sample sequence, the loop of \<open>encode_dfpwm\<close>, started in the initial
  state (charge 0, strength 0, previous bit false), ends without an exception in the state
  that the specification's per-sample step gives when it is run over the samples in
  order: the bit is \<open>sample > charge\<close>, strength goes up by one when the bit repeats
  and down by one otherwise and is clamped to 0..63, the change is
  \<open>(strength << 2) + 2\<close>, charge moves by the change in the direction of the bit and
  is clamped to -128..127, and the previous bit becomes the bit. The bits that the loop
  has stored are exactly the emitted bits, one per sample, in input order.
\<close>

theorem encoder_follows_delta_steps:
  "\<exists>s. encode_loop init_encoder samples = Inr s
     \<and> (charge s, strength s, previous_bit s) = fst (delta_run delta_init samples)
     \<and> held_bits s = snd (delta_run delta_init samples)
     \<and> length (snd (delta_run delta_init samples)) = length samples"
  using encode_loop_init[of samples]
  by (auto simp: delta_of_def delta_bits_def length_delta_run)

text \<open>
  C2. For every sample sequence and every number \<open>n\<close> of samples processed, the loop
  has reached a state without an exception, and in that state charge is in -128..127 and
  strength is in 0..63.
\<close>

theorem clamp_invariant_every_step:
  "\<exists>s. encode_loop init_encoder (take n samples) = Inr s
     \<and> - 128 \<le> charge s \<and> charge s \<le> 127 \<and> 0 \<le> strength s \<and> strength s \<le> 63"
  using encode_loop_init[of "take n samples"]
  by (auto simp: in_domain_def)

text \<open>
  C3. For every sample sequence of length N, \<open>encode_dfpwm\<close> returns
  \<open>ceil(N / 8)\<close> bytes; read back LSB-first (bit 0 of each byte first), the first N
  bits are the emitted bits in order, and the remaining bits, the padding of a partial
  last byte, are all 0.
\<close>

theorem bit_packing_round_trip:
  "\<exists>bs. encode_dfpwm samples = Inr bs
     \<and> length bs = (length samples + 7) div 8
     \<and> take (length samples) (unpack_bits bs) = delta_bits samples
     \<and> drop (length samples) (unpack_bits bs)
         = replicate (8 * length bs - length samples) False"
proof -
  from encode_dfpwm_unpack[of samples] obtain bs where
    bs: "encode_dfpwm samples = Inr bs" "length bs = (length samples + 7) div 8"
        "unpack_bits bs = delta_bits samples @ replicate (8 * length bs - length samples) False"
    by blast
  have "length (delta_bits samples) = length samples"
    by (simp add: delta_bits_def length_delta_run)
  with bs(3) have "take (length samples) (unpack_bits bs) = delta_bits samples"
    "drop (length samples) (unpack_bits bs)
       = replicate (8 * length bs - length samples) False"
    by simp_all
  with bs(1,2) show ?thesis by blast
qed

lemma encode_sample_change_only_eq: "encode_sample_change_only s x = encode_sample s x"
  by (simp add: encode_sample_change_only_def encode_sample_def Let_def)

lemma encode_loop_change_only_eq: "encode_loop_change_only s xs = encode_loop s xs"
  by (induction xs arbitrary: s) (simp_all add: encode_sample_change_only_eq split: sum.splits)

text \<open>
  C5. The value \<open>step\<close> of line 37 never influences the result: from every encoder
  state and for every sample sequence, the loop with that line removed reaches the same
  state (or raises the same exception), and the function with that line removed returns
  the same bytes.
\<close>

theorem unused_step_is_dead:
  "encode_loop_change_only s samples = encode_loop s samples
   \<and> encode_dfpwm_change_only samples = encode_dfpwm samples"
  by (simp add: encode_loop_change_only_eq encode_dfpwm_change_only_def encode_dfpwm_def)

text \<open>
  C8. \<open>encode_dfpwm\<close> is total on lists of integers: for every list, whatever the size
  of its values, it returns a byte sequence and raises nothing; and at every position of
  the list, the loop has reached that position without an exception and the step on the
  sample there succeeds and leaves charge in -128..127 and strength in 0..63.
\<close>

theorem encode_dfpwm_total:
  "(\<exists>bs. encode_dfpwm samples = Inr bs)
   \<and> (\<forall>pre x post. samples = pre @ x # post \<longrightarrow>
        (\<exists>s s'. encode_loop init_encoder pre = Inr s \<and> encode_sample s x = Inr s'
           \<and> in_domain s'))"
proof (intro conjI allI impI)
  show "\<exists>bs. encode_dfpwm samples = Inr bs"
    using encode_dfpwm_unpack[of samples] by blast
next
  fix pre x post
  assume "samples = pre @ x # post"
  from encode_loop_init[of pre] obtain s where
    s: "encode_loop init_encoder pre = Inr s" "pack_inv s"
    by blast
  from encode_sample_packs[OF s(2), of x] obtain s' where
    s': "encode_sample s x = Inr s'"
    by blast
  with s(1) encode_sample_in_domain[OF s']
  show "\<exists>s s'. encode_loop init_encoder pre = Inr s \<and> encode_sample s x = Inr s'
           \<and> in_domain s'"
    by blast
qed

theorem encode_dfpwm_total_witness:
  "[1000000, - 1000000, 99999] = [1000000] @ (- 1000000) # [99999 :: int]
   \<and> (\<exists>bs. encode_dfpwm [1000000, - 1000000, 99999] = Inr bs)
   \<and> (\<exists>s s'. encode_loop init_encoder [1000000] = Inr s
         \<and> encode_sample s (- 1000000) = Inr s' \<and> in_domain s')"
proof -
  have h: "[1000000, - 1000000, 99999] = [1000000] @ (- 1000000) # [99999 :: int]"
    by simp
  from encode_dfpwm_total[of "[1000000, - 1000000, 99999]"] h show ?thesis
    by blast
qed

section \<open>Properties of the sample extraction\<close>

lemma unpack_from_h_range:
  assumes "unpack_from_h frames idx = Inr v"
  shows "- 32768 \<le> v \<and> v \<le> 32767"
proof -
  define a where "a = uint (frames ! idx)"
  define b where "b = uint (frames ! (idx + 1))"
  have a: "0 \<le> a" "a < 256"
    using uint_lt2p[of "frames ! idx"] by (simp_all add: a_def)
  have b: "0 \<le> b" "b < 256"
    using uint_lt2p[of "frames ! (idx + 1)"] by (simp_all add: b_def)
  from assms have "v = (if a + 256 * b \<ge> 32768 then a + 256 * b - 65536 else a + 256 * b)"
    by (auto simp: unpack_from_h_def Let_def a_def b_def split: if_splits)
  with a b show ?thesis by (auto split: if_splits)
qed

lemma div_256_range:
  fixes v :: int
  assumes "- 32768 \<le> v \<and> v \<le> 32767"
  shows "- 128 \<le> v div 256 \<and> v div 256 \<le> 127"
proof -
  have "v = 256 * (v div 256) + v mod 256" by simp
  moreover have "0 \<le> v mod 256" "v mod 256 < 256" by simp_all
  ultimately show ?thesis using assms by linarith
qed

lemma floor_div_256: "\<lfloor>rat_of_int v / 256\<rfloor> = v div 256"
  using floor_divide_of_int_eq[of v 256, where ?'a = rat] by simp

lemma trunc_div_neg:
  assumes "v < 0" "\<not> 256 dvd v"
  shows "v div 256 = trunc_div v 256 - 1"
proof -
  have "(- v) mod 256 \<noteq> 0"
    using assms(2) by (simp add: mod_eq_0_iff_dvd)
  then have "(- (- v)) div 256 = - ((- v) div 256) - 1"
    using zdiv_zminus1_eq_if[of 256 "- v"] by simp
  then show ?thesis
    using assms(1) by (simp add: trunc_div_def signed_divide_int_def sgn_if)
qed

lemma trunc_div_other:
  assumes "0 \<le> v \<or> 256 dvd v"
  shows "v div 256 = trunc_div v 256"
proof (cases "0 \<le> v")
  case True
  then show ?thesis by (simp add: trunc_div_def signed_divide_int_def sgn_if)
next
  case False
  with assms have d: "256 dvd v" by simp
  then have "(- v) div 256 = - (v div 256)" by (simp add: dvd_neg_div)
  with False show ?thesis by (simp add: trunc_div_def signed_divide_int_def sgn_if)
qed

lemma get_sample_16:
  assumes "unpack_from_h frames idx = Inr v"
  shows "get_sample frames 2 idx = Inr (v div 256)"
  using assms by (simp add: get_sample_def)

lemma convert_samples_spec:
  assumes "\<forall>i \<in> set is. i * 2 + 2 \<le> length frames"
  shows "\<exists>vs. convert_samples frames acc is = Inr (acc @ vs) \<and> length vs = length is
    \<and> (\<forall>k < length is. \<exists>v. unpack_from_h frames (is ! k * 2) = Inr v \<and> vs ! k = v div 256)"
  using assms
proof (induction "is" arbitrary: acc)
  case Nil
  then show ?case by simp
next
  case (Cons i "is")
  from Cons.prems have "i * 2 + 2 \<le> length frames" by simp
  then obtain v where v: "unpack_from_h frames (i * 2) = Inr v"
    by (simp add: unpack_from_h_def Let_def)
  from Cons.prems have "\<forall>i \<in> set is. i * 2 + 2 \<le> length frames" by simp
  from Cons.IH[OF this, of "acc @ [v div 256]"] obtain vs where
    vs: "convert_samples frames (acc @ [v div 256]) is = Inr ((acc @ [v div 256]) @ vs)"
        "length vs = length is"
        "\<forall>k < length is. \<exists>v. unpack_from_h frames (is ! k * 2) = Inr v \<and> vs ! k = v div 256"
    by blast
  have "\<forall>k < length (i # is). \<exists>w. unpack_from_h frames ((i # is) ! k * 2) = Inr w
          \<and> ((v div 256) # vs) ! k = w div 256"
  proof (intro allI impI)
    fix k assume "k < length (i # is)"
    then show "\<exists>w. unpack_from_h frames ((i # is) ! k * 2) = Inr w
          \<and> ((v div 256) # vs) ! k = w div 256"
      using v vs(3) by (cases k) auto
  qed
  with v vs(1,2) show ?case
    by (intro exI[of _ "(v div 256) # vs"]) simp
qed

lemma process_file_samples_spec:
  "\<exists>samples. process_file_samples frames = Inr samples
     \<and> length samples = length frames div 2
     \<and> (\<forall>i < length frames div 2.
          \<exists>v. unpack_from_h frames (i * 2) = Inr v \<and> samples ! i = v div 256)"
proof -
  have "\<forall>i \<in> set [0..<length frames div 2]. i * 2 + 2 \<le> length frames"
    by auto
  from convert_samples_spec[OF this, of "[]"] show ?thesis
    by (auto simp: process_file_samples_def Let_def)
qed

subsection \<open>The claim about the 16-bit reduction\<close>

text \<open>
  C4, as stated: a 16-bit value \<open>v\<close> becomes the quotient of \<open>v\<close> by 256 rounded toward
  zero. It fails at \<open>v = -1\<close> (the bytes FF FF): both code paths give -1, and the
  quotient rounded toward zero is 0.
\<close>

theorem truncation_toward_zero_counterexample:
  "unpack_from_h [255, 255] 0 = Inr (- 1)
   \<and> get_sample [255, 255] 2 0 = Inr (- 1)
   \<and> process_file_samples [255, 255] = Inr [- 1]
   \<and> trunc_div (- 1) 256 = 0"
  by (simp add: unpack_from_h_def get_sample_def process_file_samples_def trunc_div_def
      signed_divide_int_def Let_def)

text \<open>
  C4, amended: for every 16-bit little-endian signed value \<open>v\<close> read from the frames,
  \<open>get_sample\<close> (sample width 2) returns the floor of \<open>v / 256\<close>, the quotient rounded
  toward negative infinity, which lies in -128..127; for a negative \<open>v\<close> not divisible
  by 256 it is one less than the quotient rounded toward zero, and otherwise it is equal
  to it. The conversion loop of \<open>process_file\<close> returns, for every frame buffer, one
  such floor per complete pair of bytes.
\<close>

theorem sample_is_floor_division:
  "(\<forall>idx v. unpack_from_h frames idx = Inr v \<longrightarrow>
      get_sample frames 2 idx = Inr \<lfloor>rat_of_int v / 256\<rfloor>
      \<and> - 128 \<le> \<lfloor>rat_of_int v / 256\<rfloor> \<and> \<lfloor>rat_of_int v / 256\<rfloor> \<le> 127
      \<and> (v < 0 \<and> \<not> 256 dvd v \<longrightarrow> \<lfloor>rat_of_int v / 256\<rfloor> = trunc_div v 256 - 1)
      \<and> (0 \<le> v \<or> 256 dvd v \<longrightarrow> \<lfloor>rat_of_int v / 256\<rfloor> = trunc_div v 256))
   \<and> (\<exists>samples. process_file_samples frames = Inr samples
        \<and> length samples = length frames div 2
        \<and> (\<forall>i < length frames div 2.
             \<exists>v. unpack_from_h frames (i * 2) = Inr v
                \<and> samples ! i = \<lfloor>rat_of_int v / 256\<rfloor>))"
proof (intro conjI allI impI)
  fix idx v assume v: "unpack_from_h frames idx = Inr v"
  show "get_sample frames 2 idx = Inr \<lfloor>rat_of_int v / 256\<rfloor>"
    using get_sample_16[OF v] by (simp add: floor_div_256)
  show "- 128 \<le> \<lfloor>rat_of_int v / 256\<rfloor>" "\<lfloor>rat_of_int v / 256\<rfloor> \<le> 127"
    using div_256_range[OF unpack_from_h_range[OF v]] by (simp_all add: floor_div_256)
  show "\<lfloor>rat_of_int v / 256\<rfloor> = trunc_div v 256 - 1" if "v < 0 \<and> \<not> 256 dvd v"
    using that trunc_div_neg[of v] by (simp add: floor_div_256)
  show "\<lfloor>rat_of_int v / 256\<rfloor> = trunc_div v 256" if "0 \<le> v \<or> 256 dvd v"
    using that trunc_div_other[of v] by (simp add: floor_div_256)
next
  show "\<exists>samples. process_file_samples frames = Inr samples
        \<and> length samples = length frames div 2
        \<and> (\<forall>i < length frames div 2.
             \<exists>v. unpack_from_h frames (i * 2) = Inr v
                \<and> samples ! i = \<lfloor>rat_of_int v / 256\<rfloor>)"
    using process_file_samples_spec[of frames] by (simp add: floor_div_256)
qed

theorem sample_is_floor_division_witness:
  "unpack_from_h [1, 255] 0 = Inr (- 255)
   \<and> get_sample [1, 255] 2 0 = Inr (- 1)
   \<and> \<lfloor>rat_of_int (- 255) / 256\<rfloor> = - 1
   \<and> trunc_div (- 255) 256 = 0"
proof -
  have h: "unpack_from_h [1, 255] 0 = Inr (- 255)"
    by (simp add: unpack_from_h_def Let_def)
  have n: "(- 255 :: int) < 0 \<and> \<not> 256 dvd (- 255 :: int)"
    by simp
  from sample_is_floor_division[of "[1, 255]"] h n
  have "get_sample [1, 255] 2 0 = Inr \<lfloor>rat_of_int (- 255) / 256\<rfloor>"
    "\<lfloor>rat_of_int (- 255) / 256\<rfloor> = trunc_div (- 255) 256 - 1"
    by blast+
  moreover have "trunc_div (- 255) 256 = 0"
    by (simp add: trunc_div_def signed_divide_int_def)
  ultimately show ?thesis using h by simp
qed

section \<open>Properties of the catalog update\<close>

lemma song_file_is_new_entry: "song_file_is f (new_entry t f) = Inr True"
  by (simp add: new_entry_def)

lemma find_song_objects:
  assumes "list_all is_object songs"
  shows "find_song f songs = Inr (entries_with_file f songs \<noteq> [])"
  using assms
proof (induction songs)
  case Nil
  then show ?case by (simp add: entries_with_file_def)
next
  case (Cons song songs)
  then obtain kvs where "song = JObj kvs" by (cases song) simp_all
  with Cons show ?case by (simp add: entries_with_file_def)
qed

lemma find_song_append_new:
  assumes "find_song f songs = Inr False"
  shows "find_song f (songs @ [new_entry t f]) = Inr True"
  using assms
  by (induction songs) (auto simp: song_file_is_new_entry split: sum.splits if_splits)

lemma find_song_False_entries:
  assumes "find_song f songs = Inr False"
  shows "entries_with_file f songs = []"
  using assms
  by (induction songs) (auto simp: entries_with_file_def split: sum.splits if_splits)

lemma songs_of_update:
  "songs_of (JObj (AList.update ''songs'' (JArr xs) kvs)) = xs"
  by (simp add: update_conv')

lemma other_members_update:
  "other_members (JObj (AList.update ''songs'' v kvs)) = other_members (JObj kvs)"
  by (induction kvs) auto

lemma update_missing: "map_of kvs k = None \<Longrightarrow> AList.update k v kvs = kvs @ [(k, v)]"
  by (induction kvs) (auto split: if_splits)

lemma update_append_missing:
  "map_of kvs k = None \<Longrightarrow> AList.update k v (kvs @ [(k, w)]) = kvs @ [(k, v)]"
  by (induction kvs) (auto split: if_splits)

lemma update_twice: "AList.update k v (AList.update k w kvs) = AList.update k v kvs"
  by (induction kvs) auto

text \<open>What a successful append did, for any manifest file.\<close>

lemma update_manifest_Updated:
  assumes "update_manifest basename input_title_path output_path st = Inr (st', Updated)"
  shows "\<exists>kvs. load_manifest (manifest st) = JObj kvs
     \<and> (map_of kvs ''songs'' = None \<or> map_of kvs ''songs'' = Some (JArr (songs_of (JObj kvs))))
     \<and> find_song (normalize_path output_path) (songs_of (JObj kvs)) = Inr False
     \<and> st' = \<lparr>manifest = Holds (JObj (AList.update ''songs''
                  (JArr (songs_of (JObj kvs)
                     @ [new_entry (rsplit_dot_head (basename input_title_path))
                          (normalize_path output_path)])) kvs)),
              writes = writes st + 1\<rparr>"
proof -
  from assms obtain kvs where kvs: "load_manifest (manifest st) = JObj kvs"
    by (cases "load_manifest (manifest st)") (simp_all add: update_manifest_def Let_def)
  show ?thesis
  proof (cases "map_of kvs ''songs''")
    case None
    with assms kvs show ?thesis
      by (auto simp: update_manifest_def Let_def update_missing update_append_missing)
  next
    case (Some v)
    with assms kvs obtain songs where v: "v = JArr songs"
      by (cases v) (simp_all add: update_manifest_def Let_def)
    with assms kvs Some show ?thesis
      by (auto simp: update_manifest_def Let_def split: sum.splits if_splits)
  qed
qed

lemma update_manifest_catalog:
  assumes "is_catalog (manifest st)"
      and "entries_with_file (normalize_path output_path) (catalog_songs (manifest st)) = []"
  shows "update_manifest basename input_title_path output_path st =
     Inr (\<lparr>manifest = Holds (JObj (AList.update ''songs''
             (JArr (catalog_songs (manifest st)
                @ [new_entry (rsplit_dot_head (basename input_title_path))
                     (normalize_path output_path)]))
             (case load_manifest (manifest st) of JObj kvs \<Rightarrow> kvs | _ \<Rightarrow> []))),
           writes = writes st + 1\<rparr>, Updated)"
proof -
  from assms(1) obtain kvs where kvs: "load_manifest (manifest st) = JObj kvs"
    by (cases "manifest st" rule: is_catalog.cases) (simp_all add: load_manifest_def)
  from assms(1) kvs have shape: "map_of kvs ''songs'' = None
      \<or> (\<exists>songs. map_of kvs ''songs'' = Some (JArr songs) \<and> list_all is_object songs)"
    by (cases "manifest st" rule: is_catalog.cases)
       (auto simp: load_manifest_def split: option.splits json.splits)
  show ?thesis
  proof (cases "map_of kvs ''songs''")
    case None
    with kvs show ?thesis
      by (simp add: update_manifest_def Let_def catalog_songs_def update_missing update_append_missing)
  next
    case (Some v)
    with shape obtain songs where s: "v = JArr songs" "list_all is_object songs"
      by auto
    from assms(2) kvs Some s have "entries_with_file (normalize_path output_path) songs = []"
      by (simp add: catalog_songs_def)
    with find_song_objects[OF s(2), of "normalize_path output_path"]
    have "find_song (normalize_path output_path) songs = Inr False" by simp
    with kvs Some s show ?thesis
      by (simp add: update_manifest_def Let_def catalog_songs_def)
  qed
qed

lemma is_catalog_objects:
  assumes "is_catalog m"
  shows "list_all is_object (catalog_songs m)"
  using assms
  by (cases m rule: is_catalog.cases)
     (auto simp: catalog_songs_def load_manifest_def split: option.splits json.splits)

lemma update_manifest_present:
  assumes "manifest st = Holds (JObj kvs)"
      and "map_of kvs ''songs'' = Some (JArr songs)"
      and "find_song (normalize_path output_path) songs = Inr True"
  shows "update_manifest basename input_title_path output_path st = Inr (st, AlreadyPresent)"
  using assms by (simp add: update_manifest_def Let_def load_manifest_def)

lemma entries_with_file_snoc:
  "entries_with_file f (songs @ [new_entry t f]) = entries_with_file f songs @ [new_entry t f]"
  by (simp add: entries_with_file_def song_file_is_new_entry)

subsection \<open>The claims about the catalog\<close>

text \<open>
  C7. For every catalog (the manifest file is absent or unreadable, or holds an object
  whose \<open>songs\<close>, when present, is a list of objects) with no entry whose \<open>file\<close> is
  the normalized path, the first call of \<open>update_manifest\<close> appends the entry
  \<open>{title, file}\<close> after the existing entries and writes the manifest once; the second
  call with the same arguments reports the song as already present and leaves the store,
  file content and number of writes, as it is; and the catalog then has exactly one entry
  with that \<open>file\<close>.
\<close>

theorem upsert_twice_one_entry:
  assumes "is_catalog (manifest st)"
      and "entries_with_file (normalize_path output_path) (catalog_songs (manifest st)) = []"
  shows "\<exists>st1. update_manifest basename input_title_path output_path st = Inr (st1, Updated)
     \<and> catalog_songs (manifest st1)
         = catalog_songs (manifest st)
           @ [new_entry (rsplit_dot_head (basename input_title_path))
                (normalize_path output_path)]
     \<and> writes st1 = writes st + 1
     \<and> update_manifest basename input_title_path output_path st1 = Inr (st1, AlreadyPresent)
     \<and> length (entries_with_file (normalize_path output_path) (catalog_songs (manifest st1)))
         = 1"
proof -
  let ?f = "normalize_path output_path"
  let ?new = "new_entry (rsplit_dot_head (basename input_title_path)) ?f :: 'a json"
  let ?songs = "catalog_songs (manifest st)"
  let ?kvs = "AList.update ''songs'' (JArr (?songs @ [?new]))
      (case load_manifest (manifest st) of JObj kvs \<Rightarrow> kvs | _ \<Rightarrow> [])"
  let ?st1 = "\<lparr>manifest = Holds (JObj ?kvs), writes = writes st + 1\<rparr>"
  have first: "update_manifest basename input_title_path output_path st = Inr (?st1, Updated)"
    using update_manifest_catalog[OF assms] .
  have songs1: "catalog_songs (manifest ?st1) = ?songs @ [?new]"
    by (simp add: catalog_songs_def load_manifest_def update_conv')
  have "find_song ?f ?songs = Inr False"
    using find_song_objects[OF is_catalog_objects[OF assms(1)], of ?f] assms(2) by simp
  then have found: "find_song ?f (?songs @ [?new]) = Inr True"
    by (rule find_song_append_new)
  have second: "update_manifest basename input_title_path output_path ?st1
      = Inr (?st1, AlreadyPresent)"
    by (rule update_manifest_present[where kvs = ?kvs and songs = "?songs @ [?new]"])
       (simp_all add: update_conv' found)
  have one: "length (entries_with_file ?f (catalog_songs (manifest ?st1))) = 1"
    unfolding songs1 entries_with_file_snoc using assms(2) by simp
  from first songs1 second one show ?thesis
    by (intro exI[of _ ?st1]) simp
qed

theorem upsert_twice_one_entry_witness:
  "is_catalog (Holds (JObj [(''songs'',
       JArr [JObj [(''title'', JStr ''a''), (''file'', JStr ''songs/a.dfpwm'')]])])
     :: nat manifest_file)
   \<and> (\<exists>st1. update_manifest (\<lambda>p. rev (takeWhile (\<lambda>c. c \<noteq> CHR ''/'') (rev p)))
           ''songs/b.mp3'' (''songs'' @ [CHR 0x5C] @ ''b.dfpwm'')
           \<lparr>manifest = Holds (JObj [(''songs'',
              JArr [JObj [(''title'', JStr ''a''), (''file'', JStr ''songs/a.dfpwm'')]])]),
            writes = 0\<rparr> = Inr (st1 :: nat store, Updated)
        \<and> catalog_songs (manifest st1)
            = [JObj [(''title'', JStr ''a''), (''file'', JStr ''songs/a.dfpwm'')],
               JObj [(''title'', JStr ''b''), (''file'', JStr ''songs/b.dfpwm'')]]
        \<and> writes st1 = 1
        \<and> update_manifest (\<lambda>p. rev (takeWhile (\<lambda>c. c \<noteq> CHR ''/'') (rev p)))
           ''songs/b.mp3'' (''songs'' @ [CHR 0x5C] @ ''b.dfpwm'') st1
            = Inr (st1, AlreadyPresent)
        \<and> length (entries_with_file ''songs/b.dfpwm'' (catalog_songs (manifest st1))) = 1)"
proof -
  let ?st = "\<lparr>manifest = Holds (JObj [(''songs'',
              JArr [JObj [(''title'', JStr ''a''), (''file'', JStr ''songs/a.dfpwm'')]])]),
            writes = 0\<rparr> :: nat store"
  let ?bn = "\<lambda>p. rev (takeWhile (\<lambda>c. c \<noteq> CHR ''/'') (rev p))"
  let ?out = "''songs'' @ [CHR 0x5C] @ ''b.dfpwm''"
  have n: "normalize_path ?out = ''songs/b.dfpwm''"
    by (simp add: normalize_path_def)
  have t: "rsplit_dot_head (?bn ''songs/b.mp3'') = ''b''"
    by (simp add: rsplit_dot_head_def)
  have h1: "is_catalog (manifest ?st)"
    by simp
  have h2: "entries_with_file (normalize_path ?out) (catalog_songs (manifest ?st)) = []"
    unfolding n by (simp add: entries_with_file_def catalog_songs_def load_manifest_def)
  from upsert_twice_one_entry[OF h1 h2, of ?bn "''songs/b.mp3''"] h1
  show ?thesis
    unfolding n t by (simp add: catalog_songs_def load_manifest_def new_entry_def)
qed

text \<open>
  C9. Whenever \<open>update_manifest\<close> appends (it reports an update), the loaded manifest is
  an object, and the manifest written is that object with its \<open>songs\<close> replaced in place
  (or added at the end when it had none) by the old list followed by the one new
  \<open>{title, file}\<close> object: the entries that were there are unchanged in content and
  order, and so are all the other members of the object. The file is written once.
\<close>

theorem append_preserves_manifest:
  assumes "update_manifest basename input_title_path output_path st = Inr (st', Updated)"
  shows "\<exists>kvs persisted. load_manifest (manifest st) = JObj kvs
     \<and> manifest st' = Holds persisted
     \<and> persisted = JObj (AList.update ''songs''
          (JArr (songs_of (JObj kvs)
             @ [new_entry (rsplit_dot_head (basename input_title_path))
                  (normalize_path output_path)])) kvs)
     \<and> songs_of persisted
         = songs_of (JObj kvs)
           @ [new_entry (rsplit_dot_head (basename input_title_path))
                (normalize_path output_path)]
     \<and> other_members persisted = other_members (JObj kvs)
     \<and> writes st' = writes st + 1"
proof -
  from update_manifest_Updated[OF assms] obtain kvs where
    kvs: "load_manifest (manifest st) = JObj kvs"
      "st' = \<lparr>manifest = Holds (JObj (AList.update ''songs''
                  (JArr (songs_of (JObj kvs)
                     @ [new_entry (rsplit_dot_head (basename input_title_path))
                          (normalize_path output_path)])) kvs)),
              writes = writes st + 1\<rparr>"
    by blast
  show ?thesis
    using kvs
    by (intro exI[of _ kvs])
       (simp add: songs_of_update other_members_update
          del: songs_of.simps other_members.simps)
qed

theorem append_preserves_manifest_witness:
  "\<exists>st' kvs persisted.
     update_manifest (\<lambda>p. rev (takeWhile (\<lambda>c. c \<noteq> CHR ''/'') (rev p)))
       ''songs/b.mp3'' ''songs/b.dfpwm''
       \<lparr>manifest = Holds (JObj [(''version'', JNum 1),
          (''songs'', JArr [JObj [(''title'', JStr ''a''), (''file'', JStr ''songs/a.dfpwm'')]]),
          (''owner'', JStr ''me'')]),
        writes = 0\<rparr> = Inr (st' :: nat store, Updated)
     \<and> manifest st' = Holds persisted
     \<and> kvs = [(''version'', JNum 1),
          (''songs'', JArr [JObj [(''title'', JStr ''a''), (''file'', JStr ''songs/a.dfpwm'')]]),
          (''owner'', JStr ''me'')]
     \<and> songs_of persisted
         = [JObj [(''title'', JStr ''a''), (''file'', JStr ''songs/a.dfpwm'')],
            JObj [(''title'', JStr ''b''), (''file'', JStr ''songs/b.dfpwm'')]]
     \<and> other_members persisted = [(''version'', JNum 1), (''owner'', JStr ''me'')]
     \<and> writes st' = 1"
proof -
  let ?st = "\<lparr>manifest = Holds (JObj [(''version'', JNum 1),
          (''songs'', JArr [JObj [(''title'', JStr ''a''), (''file'', JStr ''songs/a.dfpwm'')]]),
          (''owner'', JStr ''me'')]),
        writes = 0\<rparr> :: nat store"
  let ?bn = "\<lambda>p. rev (takeWhile (\<lambda>c. c \<noteq> CHR ''/'') (rev p))"
  obtain st' where
    run: "update_manifest ?bn ''songs/b.mp3'' ''songs/b.dfpwm'' ?st = Inr (st', Updated)"
    by (simp add: update_manifest_def Let_def load_manifest_def normalize_path_def)
  have t: "rsplit_dot_head (?bn ''songs/b.mp3'') = ''b''"
    by (simp add: rsplit_dot_head_def)
  from append_preserves_manifest[OF run] run show ?thesis
    unfolding t by (auto simp: load_manifest_def new_entry_def normalize_path_def)
qed

section \<open>Properties of the resampler\<close>

subsection \<open>Powers of two and rounding\<close>

lemma p2_mono: "a \<le> b \<Longrightarrow> (2::rat) powi a \<le> 2 powi b"
  by (rule power_int_increasing) simp_all

lemma p2_strict: "a < b \<Longrightarrow> (2::rat) powi a < 2 powi b"
  by (rule power_int_strict_increasing) simp_all

lemma p2_less_imp: "(2::rat) powi a < 2 powi b \<Longrightarrow> a < b"
  using p2_mono[of b a] by (cases "a < b") simp_all

lemma p2_le_imp: "(2::rat) powi a \<le> 2 powi b \<Longrightarrow> a \<le> b"
  using p2_strict[of b a] by (cases "a \<le> b") simp_all

lemma p2_add: "(2::rat) powi (a + b) = 2 powi a * 2 powi b"
  by (simp add: power_int_add)

lemma p2_diff: "(2::rat) powi (a - b) = 2 powi a / 2 powi b"
  by (simp add: power_int_diff)

lemma p2_int: "0 \<le> d \<Longrightarrow> (2::rat) powi d = of_int (2 ^ nat d)"
  by (simp add: power_int_def)

lemma bitlen_rat_bounds:
  assumes "0 < p"
  shows "(2::rat) powi (bitlen p - 1) \<le> of_int p" "of_int p < (2::rat) powi (bitlen p)"
proof -
  have b1: "1 \<le> bitlen p"
    using assms bitlen_eq_zero_iff[of p] bitlen_nonneg[of p] by linarith
  have "2 ^ nat (bitlen p - 1) \<le> p" "p < 2 ^ nat (bitlen p)"
    using bitlen_bounds[OF assms] by auto
  then have "(of_int (2 ^ nat (bitlen p - 1)) :: rat) \<le> of_int p"
    "(of_int p :: rat) < of_int (2 ^ nat (bitlen p))"
    by (simp_all only: of_int_le_iff of_int_less_iff)
  then show "(2::rat) powi (bitlen p - 1) \<le> of_int p" "of_int p < (2::rat) powi (bitlen p)"
    using b1 by (simp_all add: p2_int)
qed

lemma binary_exponent_bounds:
  assumes "0 < x"
  shows "2 powi (binary_exponent x) \<le> x" "x < 2 powi (binary_exponent x + 1)"
proof -
  obtain p q where pq: "quotient_of x = (p, q)" by (cases "quotient_of x")
  then have q: "0 < q" using quotient_of_denom_pos by blast
  have x: "x = of_int p / of_int q" using quotient_of_div[OF pq] .
  have p: "0 < p" using assms x q by (simp add: zero_less_divide_iff)
  define d where "d = bitlen p - bitlen q"
  note bp = bitlen_rat_bounds[OF p]
  note bq = bitlen_rat_bounds[OF q]
  have "of_int p / of_int q < (2::rat) powi (bitlen p) / 2 powi (bitlen q - 1)"
    using bp(2) bq(1) p by (intro frac_less) simp_all
  then have upper: "x < 2 powi (d + 1)"
    by (simp add: x d_def p2_diff[symmetric] algebra_simps)
  have "(2::rat) powi (bitlen p - 1) / 2 powi (bitlen q) < of_int p / of_int q"
    using bp(1) bq(2) q by (intro frac_less2) simp_all
  then have lower: "2 powi (d - 1) < x"
    by (simp add: x d_def p2_diff[symmetric] algebra_simps)
  have e: "binary_exponent x = (if 2 powi d \<le> x then d else d - 1)"
    by (simp add: binary_exponent_def pq d_def Let_def)
  show "2 powi (binary_exponent x) \<le> x"
    using lower by (simp add: e)
  show "x < 2 powi (binary_exponent x + 1)"
    using upper by (simp add: e)
qed

lemma round_half_even_of_int: "round_half_even (of_int k) = k"
  by (simp add: round_half_even_def)

lemma round_half_even_ge: "of_int k \<le> y \<Longrightarrow> k \<le> round_half_even y"
proof -
  assume "of_int k \<le> y"
  then have "k \<le> \<lfloor>y\<rfloor>" by (simp add: le_floor_iff)
  then show ?thesis by (simp add: round_half_even_def Let_def)
qed

lemma round_half_even_le: "y \<le> of_int k \<Longrightarrow> round_half_even y \<le> k"
proof -
  assume a: "y \<le> of_int k"
  show ?thesis
  proof (cases "y = of_int \<lfloor>y\<rfloor>")
    case True
    then have "y - of_int \<lfloor>y\<rfloor> = 0" by simp
    moreover have "\<lfloor>y\<rfloor> \<le> k" using a by (simp add: floor_le_iff) 
    ultimately show ?thesis by (simp add: round_half_even_def Let_def)
  next
    case False
    moreover have "of_int \<lfloor>y\<rfloor> \<le> y" by (rule of_int_floor_le)
    ultimately have "of_int \<lfloor>y\<rfloor> < y" by linarith
    with a have "(of_int \<lfloor>y\<rfloor> :: rat) < of_int k" by simp
    then have "\<lfloor>y\<rfloor> < k" by (simp only: of_int_less_iff)
    then show ?thesis by (simp add: round_half_even_def Let_def)
  qed
qed

lemma round_binary64_pos:
  assumes "0 < x"
  shows "round_binary64 x =
     of_int (round_half_even (x / 2 powi (max (binary_exponent x) (- 1022) - 52)))
       * 2 powi (max (binary_exponent x) (- 1022) - 52)"
  using assms by (simp add: round_binary64_def Let_def)

text \<open>Rounding does not cross a grid point \<open>m \<sqdot> 2\<^sup>j\<close> with \<open>m \<le> 2\<^sup>5\<^sup>3\<close> from above.\<close>

lemma round_binary64_ge_grid:
  assumes m: "0 < m" "m \<le> 2 ^ 53" and j: "- 1074 \<le> j"
      and x: "of_int m * 2 powi j \<le> x"
  shows "of_int m * 2 powi j \<le> round_binary64 x"
proof -
  have mpos: "(0::rat) < of_int m * 2 powi j" using m(1) by simp
  with x have xpos: "0 < x" by linarith
  define e where "e = max (binary_exponent x) (- 1022)"
  define q :: rat where "q = 2 powi (e - 52)"
  have qpos: "0 < q" by (simp add: q_def)
  have r: "round_binary64 x = of_int (round_half_even (x / q)) * q"
    using round_binary64_pos[OF xpos] by (simp add: e_def q_def)
  show ?thesis
  proof (cases "e - 52 \<le> j")
    case True
    define K where "K = m * 2 ^ nat (j - (e - 52))"
    have "(2::rat) powi j = 2 powi (j - (e - 52)) * q"
      unfolding q_def p2_add[symmetric] by simp
    also have "(2::rat) powi (j - (e - 52)) = of_int (2 ^ nat (j - (e - 52)))"
      using True by (intro p2_int) simp
    finally have grid: "of_int m * 2 powi j = of_int K * q"
      by (simp add: K_def)
    with x have "of_int K * q \<le> x" by simp
    then have "of_int K \<le> x / q" using qpos by (simp add: pos_le_divide_eq)
    then have "K \<le> round_half_even (x / q)" by (rule round_half_even_ge)
    then have "(of_int K :: rat) \<le> of_int (round_half_even (x / q))"
      by (simp only: of_int_le_iff)
    then have "of_int K * q \<le> of_int (round_half_even (x / q)) * q"
      using qpos by (simp add: mult_right_mono)
    then show ?thesis by (simp add: grid r)
  next
    case False
    then have "- 1022 < e" using j by linarith
    then have e: "e = binary_exponent x" by (simp add: e_def max_def split: if_splits)
    have "2 powi e \<le> x" unfolding e by (rule binary_exponent_bounds(1)[OF xpos])
    moreover have pe: "(2::rat) powi e = of_int (2 ^ 52) * q"
      unfolding q_def using p2_add[of 52 "e - 52"] by simp
    ultimately have "of_int (2 ^ 52) * q \<le> x" by simp
    then have "of_int (2 ^ 52) \<le> x / q" using qpos by (simp add: pos_le_divide_eq)
    then have "2 ^ 52 \<le> round_half_even (x / q)" by (rule round_half_even_ge)
    then have "(of_int (2 ^ 52) :: rat) \<le> of_int (round_half_even (x / q))"
      by (simp only: of_int_le_iff)
    then have "of_int (2 ^ 52) * q \<le> of_int (round_half_even (x / q)) * q"
      using qpos by (simp add: mult_right_mono)
    then have low: "2 powi e \<le> round_binary64 x" by (simp add: pe r)
    have "(of_int m :: rat) \<le> of_int (2 ^ 53)" using m(2) by (simp only: of_int_le_iff)
    then have "of_int m * 2 powi j \<le> (of_int (2 ^ 53) :: rat) * 2 powi j"
      by (simp add: mult_right_mono)
    also have "\<dots> = 2 powi (53 + j)" using p2_add[of 53 j] by simp
    also have "\<dots> \<le> 2 powi e" using False by (intro p2_mono) linarith
    finally show ?thesis using low by linarith
  qed
qed

text \<open>Rounding does not cross a power of two from below.\<close>

lemma round_binary64_le_pow:
  assumes xpos: "0 < x" and u: "- 1074 \<le> u" and x: "x \<le> 2 powi u"
  shows "round_binary64 x \<le> 2 powi u"
proof -
  define e where "e = max (binary_exponent x) (- 1022)"
  define q :: rat where "q = 2 powi (e - 52)"
  have qpos: "0 < q" by (simp add: q_def)
  have r: "round_binary64 x = of_int (round_half_even (x / q)) * q"
    using round_binary64_pos[OF xpos] by (simp add: e_def q_def)
  have "2 powi (binary_exponent x) \<le> x" by (rule binary_exponent_bounds(1)[OF xpos])
  with x have "(2::rat) powi (binary_exponent x) \<le> 2 powi u" by linarith
  then have "binary_exponent x \<le> u" by (rule p2_le_imp)
  then have le: "e - 52 \<le> u" using u by (simp add: e_def max_def)
  define K :: int where "K = 2 ^ nat (u - (e - 52))"
  have "(2::rat) powi u = 2 powi (u - (e - 52)) * q"
    unfolding q_def p2_add[symmetric] by simp
  also have "(2::rat) powi (u - (e - 52)) = of_int (2 ^ nat (u - (e - 52)))"
    using le by (intro p2_int) simp
  finally have grid: "2 powi u = of_int K * q"
    by (simp add: K_def)
  with x have "x \<le> of_int K * q" by simp
  then have "x / q \<le> of_int K" using qpos by (simp add: pos_divide_le_eq)
  then have "round_half_even (x / q) \<le> K" by (rule round_half_even_le)
  then have "(of_int (round_half_even (x / q)) :: rat) \<le> of_int K"
    by (simp only: of_int_le_iff)
  then have "of_int (round_half_even (x / q)) * q \<le> of_int K * q"
    using qpos by (simp add: mult_right_mono)
  then show ?thesis by (simp add: grid r)
qed

text \<open>An integer of at most 53 bits is a float.\<close>

lemma round_binary64_int:
  assumes "0 \<le> n" "n \<le> 2 ^ 53"
  shows "round_binary64 (of_int n) = of_int n"
proof (cases "n = 0")
  case True
  then show ?thesis by (simp add: round_binary64_def)
next
  case False
  with assms have npos: "0 < n" by simp
  have ge: "of_int n \<le> round_binary64 (of_int n)"
    using round_binary64_ge_grid[OF npos assms(2), of 0 "of_int n"] by simp
  define x :: rat where "x = of_int n"
  have xpos: "0 < x" using npos by (simp add: x_def)
  define e where "e = max (binary_exponent x) (- 1022)"
  define q :: rat where "q = 2 powi (e - 52)"
  have qpos: "0 < q" by (simp add: q_def)
  have r: "round_binary64 x = of_int (round_half_even (x / q)) * q"
    using round_binary64_pos[OF xpos] by (simp add: e_def q_def)
  have "2 powi (binary_exponent x) \<le> x" by (rule binary_exponent_bounds(1)[OF xpos])
  moreover have "x \<le> 2 powi 53"
  proof -
    have "(of_int n :: rat) \<le> of_int (2 ^ 53)" using assms(2) by (simp only: of_int_le_iff)
    then show ?thesis by (simp add: x_def)
  qed
  ultimately have "(2::rat) powi (binary_exponent x) \<le> 2 powi 53" by linarith
  then have "binary_exponent x \<le> 53" by (rule p2_le_imp)
  then have e53: "e \<le> 53" by (simp add: e_def)
  show ?thesis
  proof (cases "e = 53")
    case True
    have "2 powi e \<le> x"
      using True \<open>2 powi (binary_exponent x) \<le> x\<close> by (simp add: e_def max_def split: if_splits)
    with \<open>x \<le> 2 powi 53\<close> True have "x = 2 powi 53" by simp
    then have "round_binary64 x \<le> 2 powi 53"
      using round_binary64_le_pow[OF xpos, of 53] by simp
    with \<open>x = 2 powi 53\<close> ge show ?thesis by (simp add: x_def)
  next
    case False
    with e53 have le: "e - 52 \<le> 0" by simp
    define K where "K = n * 2 ^ nat (- (e - 52))"
    have "(1::rat) = 2 powi (- (e - 52)) * q"
      unfolding q_def p2_add[symmetric] by simp
    also have "(2::rat) powi (- (e - 52)) = of_int (2 ^ nat (- (e - 52)))"
      using le by (intro p2_int) simp
    finally have "x = of_int K * q" by (simp add: K_def x_def)
    then have "x / q = of_int K" using qpos by simp
    then have "round_half_even (x / q) = K" by (simp add: round_half_even_of_int)
    with \<open>x = of_int K * q\<close> r show ?thesis by (simp add: x_def)
  qed
qed

lemma to_float_int:
  assumes "0 \<le> n" "n \<le> 2 ^ 53"
  shows "to_float (of_int n) = Finite (of_int n)"
proof -
  have "(of_int n :: rat) \<le> of_int (2 ^ 53)" using assms(2) by (simp only: of_int_le_iff)
  then have a: "(of_int n :: rat) \<le> 2 ^ 53" by simp
  have "(2::rat) ^ 53 < 2 ^ 1024" by (rule power_strict_increasing) simp_all
  with a have b: "(of_int n :: rat) < 2 ^ 1024" by linarith
  have c: "(0::rat) \<le> of_int n" using assms(1) by simp
  have "\<not> (of_int n :: rat) \<le> - (2 ^ 1024)"
  proof
    assume "(of_int n :: rat) \<le> - (2 ^ 1024)"
    moreover have "(0::rat) < 2 ^ 1024" by simp
    ultimately show False using c by linarith
  qed
  with b show ?thesis
    unfolding to_float_def round_binary64_int[OF assms] Let_def
    by (simp only: not_le[symmetric] if_False) 
qed

subsection \<open>The loop\<close>

lemma resample_loop_done:
  assumes "\<not> float_less_int idx (int (length samples))"
  shows "resample_loop samples ratio new idx = Some (Inr new)"
  using assms by (subst resample_loop.simps) simp

lemma resample_loop_step:
  assumes "float_less_int idx (int (length samples))"
      and "float_to_int idx = Inr i" and "list_get samples i = Inr v"
  shows "resample_loop samples ratio new idx
     = resample_loop samples ratio (new @ [v]) (float_add idx ratio)"
  using assms by (subst resample_loop.simps) simp

lemma list_get_in_range:
  assumes "0 \<le> i" "i < int (length xs)"
  shows "list_get xs i = Inr (xs ! nat i)"
  using assms by (simp add: list_get_def Let_def)

text \<open>
  The cursor advances by at least one point of a grid of floats at each iteration, so the
  loop ends.
\<close>

lemma resample_loop_advances:
  fixes g r :: rat
  assumes g: "g = 2 powi j" "- 1074 \<le> j" and r: "g \<le> r"
      and L: "of_nat (length samples) \<le> g * 2 ^ 53"
  shows "0 \<le> a \<Longrightarrow> nat (\<lceil>of_nat (length samples) / g\<rceil> - \<lfloor>a / g\<rfloor>) \<le> n \<Longrightarrow>
     \<exists>out. resample_loop samples (Finite r) new (Finite a) = Some (Inr (new @ out))
        \<and> (a < of_nat (length samples) \<longrightarrow> out \<noteq> [] \<and> hd out = samples ! nat \<lfloor>a\<rfloor>)"
proof (induction n arbitrary: a new)
  case 0
  have gpos: "0 < g" by (simp add: g(1))
  from 0 have "\<lceil>of_nat (length samples) / g\<rceil> \<le> \<lfloor>a / g\<rfloor>" by simp
  then have "(of_int \<lceil>of_nat (length samples) / g\<rceil> :: rat) \<le> of_int \<lfloor>a / g\<rfloor>"
    by (simp only: of_int_le_iff)
  moreover have "of_nat (length samples) / g \<le> of_int \<lceil>of_nat (length samples) / g\<rceil>"
    by (rule le_of_int_ceiling)
  moreover have "of_int \<lfloor>a / g\<rfloor> \<le> a / g" by (rule of_int_floor_le)
  ultimately have "of_nat (length samples) / g \<le> a / g" by linarith
  then have "of_nat (length samples) \<le> a" using gpos by (simp add: divide_le_cancel)
  then have "\<not> float_less_int (Finite a) (int (length samples))" by simp
  from resample_loop_done[OF this] \<open>of_nat (length samples) \<le> a\<close> show ?case by simp
next
  case (Suc n)
  have gpos: "0 < g" by (simp add: g(1))
  show ?case
  proof (cases "a < of_nat (length samples)")
    case False
    then have "\<not> float_less_int (Finite a) (int (length samples))" by simp
    from resample_loop_done[OF this] False show ?thesis by simp
  next
    case True
    then have lt: "float_less_int (Finite a) (int (length samples))" by simp
    have ti: "float_to_int (Finite a) = Inr \<lfloor>a\<rfloor>" using Suc.prems(1) by simp
    have "0 \<le> \<lfloor>a\<rfloor>" using Suc.prems(1) by simp
    moreover have "\<lfloor>a\<rfloor> < int (length samples)"
      using True by (simp add: floor_less_iff)
    ultimately have lg: "list_get samples \<lfloor>a\<rfloor> = Inr (samples ! nat \<lfloor>a\<rfloor>)"
      by (rule list_get_in_range)
    let ?v = "samples ! nat \<lfloor>a\<rfloor>"
    have step: "resample_loop samples (Finite r) new (Finite a)
        = resample_loop samples (Finite r) (new @ [?v]) (to_float (a + r))"
      using resample_loop_step[OF lt ti lg, of "Finite r" new] by simp
    define k where "k = \<lfloor>a / g\<rfloor>"
    have k0: "0 \<le> k" using Suc.prems(1) gpos by (simp add: k_def)
    have "a / g < of_nat (length samples) / g"
      using True gpos by (simp add: divide_strict_right_mono)
    also have "\<dots> \<le> 2 ^ 53" using L gpos by (simp add: pos_divide_le_eq mult.commute)
    finally have "a / g < of_int (2 ^ 53)" by simp
    then have "k < 2 ^ 53" unfolding k_def by (simp only: floor_less_iff)
    then have k1: "0 < k + 1" "k + 1 \<le> 2 ^ 53" using k0 by simp_all
    have "of_int k \<le> a / g" unfolding k_def by (rule of_int_floor_le)
    then have "of_int k * g \<le> a" using gpos by (simp add: pos_le_divide_eq)
    then have "of_int (k + 1) * g \<le> a + r" using r by (simp add: algebra_simps)
    then have grid: "of_int (k + 1) * g \<le> round_binary64 (a + r)"
      unfolding g(1) by (rule round_binary64_ge_grid[OF k1 g(2)])
    define a' where "a' = round_binary64 (a + r)"
    have "of_int (k + 1) \<le> a' / g"
      using grid gpos by (simp add: a'_def pos_le_divide_eq)
    then have k': "k + 1 \<le> \<lfloor>a' / g\<rfloor>" by (simp only: le_floor_iff)
    have a'pos: "0 \<le> a'"
    proof -
      have "(0::rat) \<le> of_int (k + 1) * g" using k1(1) gpos by simp
      with grid show ?thesis by (simp add: a'_def)
    qed
    show ?thesis
    proof (cases "a' \<ge> 2 ^ 1024")
      case True
      then have "to_float (a + r) = PosInf" by (simp add: to_float_def a'_def)
      then have "resample_loop samples (Finite r) (new @ [?v]) (to_float (a + r))
          = Some (Inr (new @ [?v]))"
        by (simp add: resample_loop_done)
      with step show ?thesis by simp
    next
      case False
      moreover have "\<not> a' \<le> - (2 ^ 1024)"
      proof
        assume "a' \<le> - (2 ^ 1024)"
        moreover have "(0::rat) < 2 ^ 1024" by simp
        ultimately show False using a'pos by linarith
      qed
      ultimately have tf: "to_float (a + r) = Finite a'"
        unfolding to_float_def Let_def a'_def[symmetric] by (simp only: if_False)
      have "nat (\<lceil>of_nat (length samples) / g\<rceil> - \<lfloor>a' / g\<rfloor>) \<le> n"
        using Suc.prems(2) k' by (simp add: k_def)
      from Suc.IH[OF a'pos this, of "new @ [?v]"] obtain out where
        "resample_loop samples (Finite r) (new @ [?v]) (Finite a') = Some (Inr ((new @ [?v]) @ out))"
        by blast
      with step tf show ?thesis by simp
    qed
  qed
qed

text \<open>The ratio of two positive rates is a finite float of about the same size.\<close>

lemma true_divide_positive:
  assumes T: "0 < target_rate" and F: "0 < framerate" "framerate < 2 ^ 1023"
      and small: "target_rate \<le> framerate * 2 ^ 52"
  shows "\<exists>r e0. true_divide framerate target_rate = Inr (Finite r)
     \<and> - 1074 \<le> e0 \<and> 2 powi e0 \<le> r
     \<and> of_int framerate / of_int target_rate < (2::rat) powi (e0 + 1)"
proof -
  define q0 :: rat where "q0 = of_int framerate / of_int target_rate"
  have Tpos: "(0::rat) < of_int target_rate" using T by simp
  have q0pos: "0 < q0" using T F(1) by (simp add: q0_def)
  define e0 where "e0 = binary_exponent q0"
  define g :: rat where "g = 2 powi e0"
  have E1: "g \<le> q0" unfolding g_def e0_def by (rule binary_exponent_bounds(1)[OF q0pos])
  have E2: "q0 < 2 powi (e0 + 1)" unfolding e0_def by (rule binary_exponent_bounds(2)[OF q0pos])
  have "(of_int target_rate :: rat) \<le> of_int (framerate * 2 ^ 52)"
    using small by (simp only: of_int_le_iff)
  then have "(of_int target_rate :: rat) \<le> of_int framerate * 2 ^ 52" by simp
  then have "1 \<le> (of_int framerate :: rat) * 2 ^ 52 / of_int target_rate"
    using Tpos by (simp only: pos_le_divide_eq mult_1)
  then have "1 \<le> q0 * 2 ^ 52" by (simp add: q0_def)
  then have "1 / 2 ^ 52 \<le> q0" by (simp add: pos_divide_le_eq)
  moreover have "(2::rat) powi (- 52) = 1 / 2 ^ 52"
  proof -
    have "(2::rat) powi (- 52) = inverse (2 powi 52)" by (rule power_int_minus)
    also have "(2::rat) powi 52 = 2 ^ 52" by (simp only: power_int_numeral)
    finally show ?thesis by (simp only: inverse_eq_divide)
  qed
  ultimately have "(2::rat) powi (- 52) < 2 powi (e0 + 1)" using E2 by linarith
  then have "- 52 < e0 + 1" by (rule p2_less_imp)
  then have j: "- 1074 \<le> e0" by simp
  have "of_int framerate \<le> (of_int framerate :: rat) * of_int target_rate"
    using T F(1) by (simp add: mult_le_cancel_left1)
  then have "q0 \<le> of_int framerate" using Tpos by (simp add: q0_def pos_divide_le_eq)
  moreover have "(of_int framerate :: rat) < 2 powi 1023"
  proof -
    have "(of_int framerate :: rat) < of_int (2 ^ 1023)"
      using F(2) by (simp only: of_int_less_iff)
    then show ?thesis by (simp only: of_int_power of_int_numeral power_int_numeral)
  qed
  ultimately have "q0 < 2 powi 1023" by (rule le_less_trans)
  then have "q0 \<le> 2 powi 1023" by (rule less_imp_le)
  have "(- 1074 :: int) \<le> 1023" by simp
  from round_binary64_le_pow[OF q0pos this \<open>q0 \<le> 2 powi 1023\<close>]
  have rle: "round_binary64 q0 \<le> 2 powi 1023" .
  define r where "r = round_binary64 q0"
  have "(1::int) \<le> 2 ^ 53" by simp
  from round_binary64_ge_grid[OF zero_less_one this j, of q0] E1
  have gr: "g \<le> r" by (simp add: g_def r_def)
  have gpos: "0 < g" by (simp add: g_def)
  have "(2::rat) powi 1023 < 2 powi 1024" by (rule p2_strict) simp
  with rle have "r < 2 powi 1024" unfolding r_def by (rule le_less_trans)
  then have "r < 2 ^ 1024" by (simp only: power_int_numeral)
  then have r1: "\<not> r \<ge> 2 ^ 1024" by (simp only: not_le)
  have r2: "\<not> r \<le> - (2 ^ 1024)"
  proof
    assume "r \<le> - (2 ^ 1024)"
    moreover have "(0::rat) < 2 ^ 1024" by simp
    ultimately show False using gr gpos by linarith
  qed
  have tf: "to_float q0 = Finite r"
    unfolding to_float_def Let_def r_def[symmetric] using r1 r2 by (simp only: if_False)
  have "target_rate \<noteq> 0" using T by simp
  then have td: "true_divide framerate target_rate = Inr (Finite r)"
    unfolding true_divide_def q0_def[symmetric] tf by simp
  from td j gr E2 show ?thesis
    unfolding g_def q0_def by blast
qed

lemma resample_zero_target:
  "framerate \<noteq> 0 \<Longrightarrow> resample samples framerate 0 = Some (Inl ZeroDivisionError)"
  by (simp add: resample_def true_divide_def)

lemma to_float_0: "to_float 0 = Finite 0"
  by (simp add: to_float_def round_binary64_def)

lemma resample_loop_stuck:
  assumes "resample_loop samples ratio new idx = Some y"
  shows "\<not> (samples = [5] \<and> ratio = Finite 0 \<and> idx = Finite 0)"
  apply (rule resample_loop.raw_induct
      [where P = "\<lambda>s r n i y. \<not> (s = [5] \<and> r = Finite 0 \<and> i = Finite 0)", OF _ assms])
  subgoal premises prems for f s r n i z
  proof
    assume a: "s = [5] \<and> r = Finite 0 \<and> i = Finite 0"
    with prems(2) have "f [5] (Finite 0) (n @ [5]) (Finite 0) = Some z"
      by (simp add: list_get_def to_float_0)
    from prems(1)[OF this] show False by simp
  qed
  done

lemma resample_zero_framerate: "resample [5] 0 8000 = None"
proof (cases "resample [5] 0 8000")
  case None
  then show ?thesis .
next
  case (Some y)
  have "true_divide 0 8000 = Inr (Finite 0)"
    by (simp add: true_divide_def to_float_0)
  with Some have "resample_loop [5] (Finite 0) [] (Finite 0) = Some y"
    by (simp add: resample_def)
  from resample_loop_stuck[OF this] show ?thesis by simp
qed

subsection \<open>One second of silence\<close>

lemma frame_sample_silence:
  assumes "i + 2 \<le> n"
  shows "frame_sample (replicate n 0) 2 1 i = Inr 0"
  using assms by (simp add: frame_sample_def get_sample_def unpack_from_h_def Let_def)

lemma collect_samples_silence:
  assumes "\<forall>i \<in> set is. i + 2 \<le> n"
  shows "collect_samples (replicate n 0) 2 1 acc is = Inr (acc @ replicate (length is) 0)"
  using assms
proof (induction "is" arbitrary: acc)
  case Nil
  then show ?case by simp
next
  case (Cons i "is")
  then have "frame_sample (replicate n 0) 2 1 i = Inr 0"
    by (intro frame_sample_silence) simp
  with Cons show ?case by (simp add: replicate_app_Cons_same)
qed

lemma read_samples_silence:
  "read_samples (replicate 96000 0) 2 1 = Inr (replicate 48000 0)"
proof -
  have r: "range_step 96000 2 = map (\<lambda>k. k * 2) [0..<48000]"
    by (simp add: range_step_def)
  have "\<forall>i \<in> set (map (\<lambda>k. k * 2) [0..<48000]). i + 2 \<le> 96000"
    by auto
  from collect_samples_silence[OF this, of "[]"] show ?thesis
    by (simp add: read_samples_def r)
qed

lemma true_divide_6: "true_divide 48000 8000 = Inr (Finite 6)"
proof -
  have "(of_int 48000 :: rat) / of_int 8000 = of_int 6" by simp
  moreover have "to_float (of_int 6) = Finite (of_int 6)"
    by (rule to_float_int) simp_all
  ultimately show ?thesis by (simp add: true_divide_def)
qed

lemma resample_loop_silence:
  "k \<le> 8000 \<Longrightarrow>
   resample_loop (replicate 48000 0) (Finite 6) new (Finite (of_nat (6 * k)))
     = Some (Inr (new @ replicate (8000 - k) 0))"
proof (induction "8000 - k" arbitrary: k new)
  case 0
  then have k: "k = 8000" by simp
  have "\<not> float_less_int (Finite (of_nat (6 * k))) (int (length (replicate 48000 (0::int))))"
    by (simp add: k)
  from resample_loop_done[OF this] show ?case by (simp add: k)
next
  case (Suc m)
  then have k: "k < 8000" by simp
  let ?zeros = "replicate 48000 (0::int)"
  have lt: "float_less_int (Finite (of_nat (6 * k))) (int (length ?zeros))"
    using k by simp
  have "\<lfloor>(of_nat (6 * k) :: rat)\<rfloor> = int (6 * k)" by (rule floor_of_nat)
  moreover have "(0::rat) \<le> of_nat (6 * k)" by (rule of_nat_0_le_iff)
  ultimately have ti: "float_to_int (Finite (of_nat (6 * k))) = Inr (int (6 * k))"
    by (simp only: float_to_int.simps if_True)
  have lg: "list_get ?zeros (int (6 * k)) = Inr 0"
    using k by (simp add: list_get_def Let_def)
  have "(of_nat (6 * k) :: rat) + 6 = of_int (int (6 * Suc k))" by simp
  moreover have "to_float (of_int (int (6 * Suc k))) = Finite (of_int (int (6 * Suc k)))"
    using k by (intro to_float_int) simp_all
  ultimately have "to_float (of_nat (6 * k) + 6) = Finite (of_int (int (6 * Suc k)))"
    by (simp only:)
  then have fa: "float_add (Finite (of_nat (6 * k))) (Finite 6) = Finite (of_nat (6 * Suc k))"
    by (simp only: float_add.simps of_int_of_nat_eq)
  have "resample_loop ?zeros (Finite 6) new (Finite (of_nat (6 * k)))
      = resample_loop ?zeros (Finite 6) (new @ [0]) (Finite (of_nat (6 * Suc k)))"
    using resample_loop_step[OF lt ti lg, of "Finite 6" new] fa by simp
  also have "\<dots> = Some (Inr ((new @ [0]) @ replicate (8000 - Suc k) 0))"
    using Suc.hyps(2) k by (intro Suc.hyps(1)) simp_all
  also have "(new @ [0]) @ replicate (8000 - Suc k) 0 = new @ replicate (8000 - k) 0"
    using k by (simp add: replicate_app_Cons_same Suc_diff_Suc flip: replicate_Suc)
  finally show ?case .
qed

lemma resample_silence:
  "resample (replicate 48000 0) 48000 8000 = Some (Inr (replicate 8000 0))"
  using resample_loop_silence[of 0 "[]"] by (simp add: resample_def true_divide_6)

subsection \<open>The claims about the resampler\<close>

text \<open>
  C6. One second of 48000 Hz mono 16-bit silence is 96000 zero bytes. \<open>main\<close> reads
  48000 zero samples from it, the floating-cursor loop with ratio \<open>48000 / 8000 = 6.0\<close>
  keeps 8000 of them, and the encoder packs their 8000 bits into exactly
  \<open>ceil(8000 / 8) = 1000\<close> bytes; no step raises.
\<close>

theorem silent_second_1000_bytes:
  "read_samples (replicate 96000 0) 2 1 = Inr (replicate 48000 0)
   \<and> resample (replicate 48000 0) 48000 8000 = Some (Inr (replicate 8000 0))
   \<and> (\<exists>bs. transcode (replicate 96000 0) 2 1 48000 8000 = Some (Inr bs)
          \<and> length bs = 1000)"
proof -
  from encode_dfpwm_unpack[of "replicate 8000 0"] obtain bs where
    "encode_dfpwm (replicate 8000 0) = Inr bs" "length bs = 1000"
    by auto
  then show ?thesis
    using read_samples_silence resample_silence by (simp add: transcode_def)
qed

text \<open>
  C10, as stated: whenever the target rate differs from the source rate and the input is
  not empty, the resampler's output is not empty and starts with the first input sample.
  It fails for a target rate of 0, which differs from 48000: the division
  \<open>framerate / target_rate\<close> raises ZeroDivisionError and there is no output. It also
  fails for a source rate of 0: the ratio is 0.0, the cursor never advances and the loop
  never ends.
\<close>

theorem resample_first_sample_counterexample:
  "(0::int) \<noteq> 48000 \<and> [5::int] \<noteq> []
   \<and> resample [5] 48000 0 = Some (Inl ZeroDivisionError)
   \<and> resample [5] 0 8000 = None"
  using resample_zero_target[of 48000 "[5]"] resample_zero_framerate by simp

text \<open>
  C10, amended: whenever the target rate differs from the source rate, both rates are
  positive, the source rate is below \<open>2\<^sup>1\<^sup>0\<^sup>2\<^sup>3\<close>, the input is not empty and
  \<open>length(input) \<sqdot> targetRate \<le> sourceRate \<sqdot> 2\<^sup>5\<^sup>2\<close> (so that the cursor advances at
  every addition in double precision), the resampler returns an output, and that output
  is not empty and starts with the first input sample.
\<close>

theorem resample_first_sample:
  assumes T: "0 < target_rate" and F: "0 < framerate" "framerate < 2 ^ 1023"
      and ne: "target_rate \<noteq> framerate" "samples \<noteq> []"
      and adv: "int (length samples) * target_rate \<le> framerate * 2 ^ 52"
  shows "\<exists>rest. resample samples framerate target_rate = Some (Inr (hd samples # rest))"
proof -
  have L1: "1 \<le> int (length samples)" using ne(2) by (cases samples) simp_all
  have "1 * target_rate \<le> int (length samples) * target_rate"
    using L1 T by (intro mult_right_mono) simp_all
  with adv have small: "target_rate \<le> framerate * 2 ^ 52" by simp
  from true_divide_positive[OF T F small] obtain r e0 where
    td: "true_divide framerate target_rate = Inr (Finite r)"
    and j: "- 1074 \<le> e0" and gr: "2 powi e0 \<le> r"
    and E2: "of_int framerate / of_int target_rate < (2::rat) powi (e0 + 1)"
    by blast
  define g :: rat where "g = 2 powi e0"
  define q0 :: rat where "q0 = of_int framerate / of_int target_rate"
  have Tpos: "(0::rat) < of_int target_rate" using T by simp
  have "(of_int (int (length samples) * target_rate) :: rat) \<le> of_int (framerate * 2 ^ 52)"
    using adv by (simp only: of_int_le_iff)
  then have "of_nat (length samples) * of_int target_rate \<le> (of_int framerate :: rat) * 2 ^ 52"
    by simp
  then have "of_nat (length samples) \<le> (of_int framerate :: rat) * 2 ^ 52 / of_int target_rate"
    using Tpos by (simp only: pos_le_divide_eq)
  then have Lq: "of_nat (length samples) \<le> q0 * 2 ^ 52"
    by (simp add: q0_def)
  have "q0 < 2 powi (e0 + 1)" using E2 by (simp only: q0_def)
  then have "q0 * 2 ^ 52 < 2 powi (e0 + 1) * 2 ^ 52"
    by (intro mult_strict_right_mono) simp_all
  also have "\<dots> = g * 2 ^ 53" by (simp add: g_def p2_add)
  finally have L: "of_nat (length samples) \<le> g * 2 ^ 53" using Lq by linarith
  have gr': "g \<le> r" using gr by (simp add: g_def)
  from resample_loop_advances[OF g_def j gr' L, of 0 _ "[]"]
  obtain out where out: "resample_loop samples (Finite r) [] (Finite 0) = Some (Inr out)"
    "(0::rat) < of_nat (length samples) \<longrightarrow> out \<noteq> [] \<and> hd out = samples ! 0"
    by auto
  from ne(2) have "(0::rat) < of_nat (length samples)" by simp
  with out(2) have "out \<noteq> []" "hd out = samples ! 0" by simp_all
  moreover have "samples ! 0 = hd samples" using ne(2) by (simp add: hd_conv_nth)
  ultimately have "out = hd samples # tl out" by (cases out) simp_all
  with out(1) td ne(1) show ?thesis
    by (intro exI[of _ "tl out"]) (simp add: resample_def)
qed

theorem resample_first_sample_witness:
  "\<exists>rest. resample [7, 8, 9] 48000 8000 = Some (Inr (7 # rest))"
  using resample_first_sample[of 8000 48000 "[7, 8, 9]"] by simp

end
